theory Spec2Isabelle
  imports Main "HOL-Library.Word" "HOL-Library.AList"
begin

section \<open>Common types\<close>

text \<open>
  \<open>size_t\<close> is the unsigned 64-bit integer of the platform the sources are written
  for (\<open>LONG_MAX\<close> is used as a large \<open>size_t\<close>): arithmetic wraps around.
  Frame identifiers index the frame array and are modelled as natural numbers; page
  identifiers are integers.
\<close>

type_synonym size_t = "64 word"
type_synonym frame_id_t = nat
type_synonym page_id_t = int

text \<open>
  The two ways an operation does not return normally: a failed \<open>BUSTUB_ASSERT\<close>, and
  a call of the hash table's \<open>Insert\<close> that never returns.
\<close>

datatype error = AssertionFailure | NoReturn

section \<open>LRU-K replacer (lru\_k\_replacer.cpp)\<close>

text \<open>
  A slot holds the access history \<open>records\<close> (most recent first: the code pushes at
  the front and pops at the back), the number of stored timestamps and the evictable flag.
\<close>

record Slot =
  records :: "size_t list"
  record_nums :: size_t
  evictable :: bool

text \<open>
  The replacer. The declarations of \<open>slots_\<close> and of \<open>Slot\<close> are not part
  of the sources. The code uses \<open>slots_\<close> as an associative container with one entry
  per frame identifier (\<open>find\<close>, \<open>emplace\<close>, \<open>operator[]\<close>, \<open>erase\<close>
  by key): \<open>slots\<close> is the list of its entries, looked up and updated by key. The order
  in which a loop over the container visits the entries depends on the container's type,
  which the sources do not give; it is the parameter \<open>iter\<close> of \<open>Evict\<close>, the only
  operation that loops over the container. The value that a default-constructed slot gives
  to \<open>evictable\<close> is the parameter \<open>slot_evictable_default\<close> of the replacer;
  its history is empty and its count is zero.
\<close>

record LRUKReplacer =
  slots :: "(frame_id_t \<times> Slot) list"
  current_timestamp :: size_t
  curr_size :: size_t
  replacer_size :: size_t
  replacer_k :: size_t
  slot_evictable_default :: bool

definition LONG_MAX :: size_t where
  "LONG_MAX = 9223372036854775807"

text \<open>
  An iteration order: the loop of \<open>for (auto &it : slots_)\<close> visits the entries
  \<open>iter xs\<close> of the container with the entries \<open>xs\<close>, from left to right (the
  entries in key order for \<open>std::map\<close>, in an order of the implementation's choice
  for \<open>std::unordered_map\<close>).
\<close>

type_synonym slots_iteration = "(frame_id_t \<times> Slot) list \<Rightarrow> (frame_id_t \<times> Slot) list"

definition new_Slot :: "bool \<Rightarrow> Slot" where
  "new_Slot e = \<lparr>records = [], record_nums = 0, evictable = e\<rparr>"

definition new_LRUKReplacer :: "bool \<Rightarrow> size_t \<Rightarrow> size_t \<Rightarrow> LRUKReplacer" where
  "new_LRUKReplacer e num_frames k =
     \<lparr>slots = [], current_timestamp = 0, curr_size = 0,
      replacer_size = num_frames, replacer_k = k, slot_evictable_default = e\<rparr>"

subsection \<open>Evict\<close>

text \<open>
  The local variables of the loop of \<open>Evict\<close>. \<open>result\<close> is read only when
  \<open>flag\<close> is set, so the pair is one optional frame identifier.
\<close>

record evict_vars =
  max_distance :: size_t
  min_timestamp :: size_t
  min_record_nums :: size_t
  result :: "frame_id_t option"

definition evict_init :: evict_vars where
  "evict_init = \<lparr>max_distance = 0, min_timestamp = LONG_MAX, min_record_nums = LONG_MAX,
                  result = None\<rparr>"

text \<open>One iteration of the loop body, for the entry \<open>(fid, sl)\<close> that is visited.\<close>

definition evict_step :: "size_t \<Rightarrow> evict_vars \<Rightarrow> frame_id_t \<times> Slot \<Rightarrow> evict_vars" where
  "evict_step k v it =
     (let fid = fst it; sl = snd it in
      if record_nums sl = 0 \<or> \<not> evictable sl then v
      else if record_nums sl < k then
        (if record_nums sl < min_record_nums v then
           v\<lparr>result := Some fid, min_record_nums := record_nums sl,
             min_timestamp := hd (records sl)\<rparr>
         else if record_nums sl = min_record_nums v \<and> hd (records sl) < min_timestamp v then
           v\<lparr>result := Some fid, min_timestamp := hd (records sl)\<rparr>
         else v)
      else
        (if min_record_nums v < k then v
         else
           (let tmp = hd (records sl) - last (records sl) in
            if tmp > max_distance v then
              v\<lparr>result := Some fid, min_record_nums := k, max_distance := tmp\<rparr>
            else v)))"

definition evict_scan :: "size_t \<Rightarrow> (frame_id_t \<times> Slot) list \<Rightarrow> evict_vars" where
  "evict_scan k xs = foldl (evict_step k) evict_init xs"

definition Evict :: "slots_iteration \<Rightarrow> LRUKReplacer \<Rightarrow> frame_id_t option \<times> LRUKReplacer" where
  "Evict iter r =
     (case result (evict_scan (replacer_k r) (iter (slots r))) of
        Some fid \<Rightarrow>
          (Some fid, r\<lparr>slots := AList.delete fid (slots r), curr_size := curr_size r - 1\<rparr>)
      | None \<Rightarrow> (None, r))"

subsection \<open>RecordAccess, SetEvictable, Remove, Size\<close>

definition push_front :: "size_t \<Rightarrow> Slot \<Rightarrow> Slot" where
  "push_front t sl = sl\<lparr>records := t # records sl\<rparr>"

definition pop_back :: "Slot \<Rightarrow> Slot" where
  "pop_back sl = sl\<lparr>records := butlast (records sl)\<rparr>"

definition inc_record_nums :: "Slot \<Rightarrow> Slot" where
  "inc_record_nums sl = sl\<lparr>record_nums := record_nums sl + 1\<rparr>"

definition RecordAccess :: "frame_id_t \<Rightarrow> LRUKReplacer \<Rightarrow> error + LRUKReplacer" where
  "RecordAccess fid r =
     (case map_of (slots r) fid of
        None \<Rightarrow>
          if \<not> curr_size r < replacer_size r then Inl AssertionFailure
          else
            Inr (r\<lparr>slots := AList.update fid
                       (inc_record_nums (push_front (current_timestamp r)
                          (new_Slot (slot_evictable_default r)))) (slots r),
                    curr_size := curr_size r + 1,
                    current_timestamp := current_timestamp r + 1\<rparr>)
      | Some sl \<Rightarrow>
          Inr (r\<lparr>slots := AList.update fid
                     (if record_nums sl = replacer_k r
                      then pop_back (push_front (current_timestamp r) sl)
                      else inc_record_nums (push_front (current_timestamp r) sl)) (slots r),
                  current_timestamp := current_timestamp r + 1\<rparr>))"

definition SetEvictable :: "frame_id_t \<Rightarrow> bool \<Rightarrow> LRUKReplacer \<Rightarrow> error + LRUKReplacer" where
  "SetEvictable fid set_evictable r =
     (case map_of (slots r) fid of
        None \<Rightarrow> Inl AssertionFailure
      | Some tslot \<Rightarrow>
          (let c1 = (if evictable tslot \<and> \<not> set_evictable then curr_size r - 1
                     else curr_size r);
               c2 = (if \<not> evictable tslot \<and> set_evictable then c1 + 1 else c1)
           in Inr (r\<lparr>slots := AList.update fid (tslot\<lparr>evictable := set_evictable\<rparr>) (slots r),
                      curr_size := c2\<rparr>)))"

definition Remove :: "frame_id_t \<Rightarrow> LRUKReplacer \<Rightarrow> error + LRUKReplacer" where
  "Remove fid r =
     (case map_of (slots r) fid of
        None \<Rightarrow> Inr r
      | Some sl \<Rightarrow>
          if \<not> evictable sl then Inl AssertionFailure
          else Inr (r\<lparr>curr_size := curr_size r - 1, slots := AList.delete fid (slots r)\<rparr>))"

definition Size :: "LRUKReplacer \<Rightarrow> size_t" where
  "Size r = curr_size r"

section \<open>Extendible hash table (extendible\_hash\_table.cpp)\<close>

text \<open>
  Member names are those of the sources without the trailing underscore, which the term
  language does not admit; the members \<open>size_\<close> and \<open>list_\<close> of a bucket are
  \<open>array_size\<close> (the constructor's name for it) and \<open>items\<close> (after
  \<open>GetItems\<close>, which returns it).
\<close>

record ('k, 'v) Bucket =
  array_size :: nat
  depth :: nat
  items :: "('k \<times> 'v) list"

definition new_Bucket :: "nat \<Rightarrow> nat \<Rightarrow> ('k, 'v) Bucket" where
  "new_Bucket sz d = \<lparr>array_size = sz, depth = d, items = []\<rparr>"

text \<open>\<open>Bucket::Find\<close>: the value of the first entry with the key.\<close>

definition Bucket_Find :: "'k \<Rightarrow> ('k, 'v) Bucket \<Rightarrow> 'v option" where
  "Bucket_Find key b = map_of (items b) key"

fun erase_first :: "'k \<Rightarrow> ('k \<times> 'v) list \<Rightarrow> ('k \<times> 'v) list" where
  "erase_first key [] = []"
| "erase_first key (p # ps) = (if fst p = key then ps else p # erase_first key ps)"

text \<open>\<open>Bucket::Remove\<close>: erases the first entry with the key.\<close>

definition Bucket_Remove :: "'k \<Rightarrow> ('k, 'v) Bucket \<Rightarrow> bool \<times> ('k, 'v) Bucket" where
  "Bucket_Remove key b =
     (case map_of (items b) key of
        None \<Rightarrow> (False, b)
      | Some _ \<Rightarrow> (True, b\<lparr>items := erase_first key (items b)\<rparr>))"

text \<open>
  \<open>Bucket::Insert\<close>: refuses when the list has \<open>size_\<close> entries (before it looks
  for the key); otherwise overwrites the value of the first entry with the key, or appends.
\<close>

definition Bucket_Insert :: "'k \<Rightarrow> 'v \<Rightarrow> ('k, 'v) Bucket \<Rightarrow> bool \<times> ('k, 'v) Bucket" where
  "Bucket_Insert key val b =
     (if length (items b) = array_size b then (False, b)
      else (True, b\<lparr>items := AList.update key val (items b)\<rparr>))"

text \<open>
  \<open>IsFull\<close> and \<open>IncrementDepth\<close> are declared in the header, which is not part
  of the sources. Modelled from the spec: a bucket is full when it holds \<open>bucket_size\<close>
  entries (the test \<open>Bucket::Insert\<close> makes), and \<open>IncrementDepth\<close> adds one
  to the local depth.
\<close>

definition IsFull :: "('k, 'v) Bucket \<Rightarrow> bool" where
  "IsFull b = (length (items b) = array_size b)"

definition IncrementDepth :: "('k, 'v) Bucket \<Rightarrow> ('k, 'v) Bucket" where
  "IncrementDepth b = b\<lparr>depth := depth b + 1\<rparr>"

text \<open>
  The table. Buckets are shared objects: several directory slots may point to one bucket
  and the code compares the pointers. \<open>heap\<close> is the store of all buckets allocated
  so far and a pointer is an index into it; \<open>dir\<close> is the vector of pointers.
  The hash function \<open>std::hash<K>\<close> is a parameter \<open>hash\<close> of every operation.
  The latches are not modelled: the operations are the sequential ones.
\<close>

record ('k, 'v) ExtendibleHashTable =
  global_depth :: nat
  bucket_size :: nat
  num_buckets :: nat
  dir :: "nat list"
  heap :: "('k, 'v) Bucket list"

text \<open>
  The constructor: one bucket of depth \<open>global_depth_\<close>, one directory slot. The
  header's initial values of \<open>global_depth_\<close> and \<open>num_buckets_\<close> are not part
  of the sources. Modelled from the spec: the directory has \<open>2 ^ global_depth\<close> slots,
  so the depth starts at 0, and the bucket count starts at the one bucket there is.
\<close>

definition new_ExtendibleHashTable :: "nat \<Rightarrow> ('k, 'v) ExtendibleHashTable" where
  "new_ExtendibleHashTable bsize =
     \<lparr>global_depth = 0, bucket_size = bsize, num_buckets = 1, dir = [0],
      heap = [new_Bucket bsize 0]\<rparr>"

text \<open>
  \<open>IndexOf\<close>: the hash masked with \<open>(1 << global_depth_) - 1\<close>. The shift is
  evaluated in \<open>int\<close>; the model is the mathematical value, which is the one of the
  code for every depth below 31.
\<close>

definition IndexOf :: "('k \<Rightarrow> nat) \<Rightarrow> ('k, 'v) ExtendibleHashTable \<Rightarrow> 'k \<Rightarrow> nat" where
  "IndexOf hash t key = hash key mod 2 ^ global_depth t"

definition GetGlobalDepth :: "('k, 'v) ExtendibleHashTable \<Rightarrow> nat" where
  "GetGlobalDepth t = global_depth t"

definition GetLocalDepth :: "('k, 'v) ExtendibleHashTable \<Rightarrow> nat \<Rightarrow> nat" where
  "GetLocalDepth t dir_index = depth (heap t ! (dir t ! dir_index))"

definition GetNumBuckets :: "('k, 'v) ExtendibleHashTable \<Rightarrow> nat" where
  "GetNumBuckets t = num_buckets t"

definition Find :: "('k \<Rightarrow> nat) \<Rightarrow> 'k \<Rightarrow> ('k, 'v) ExtendibleHashTable \<Rightarrow> 'v option" where
  "Find hash key t = Bucket_Find key (heap t ! (dir t ! IndexOf hash t key))"

definition Table_Remove ::
  "('k \<Rightarrow> nat) \<Rightarrow> 'k \<Rightarrow> ('k, 'v) ExtendibleHashTable \<Rightarrow> bool \<times> ('k, 'v) ExtendibleHashTable" where
  "Table_Remove hash key t =
     (let a = dir t ! IndexOf hash t key;
          rb = Bucket_Remove key (heap t ! a)
      in (fst rb, t\<lparr>heap := (heap t)[a := snd rb]\<rparr>))"

text \<open>
  \<open>DoubleDir\<close>: the new directory copies slot \<open>i\<close> to \<open>i\<close> and to
  \<open>i + 2 ^ global_depth\<close>; a new bucket of depth \<open>global_depth + 1\<close> is allocated and
  put at \<open>idx + 2 ^ global_depth\<close>; the bucket count and the global depth grow by one.
\<close>

definition DoubleDir :: "nat \<Rightarrow> ('k, 'v) ExtendibleHashTable \<Rightarrow> ('k, 'v) ExtendibleHashTable" where
  "DoubleDir idx t =
     (let n = 2 ^ global_depth t;
          tmp_dir = map (\<lambda>i. dir t ! i) [0..<n] @ map (\<lambda>i. dir t ! i) [0..<n];
          bptr = length (heap t)
      in t\<lparr>dir := tmp_dir[idx + n := bptr],
            heap := heap t @ [new_Bucket (bucket_size t) (global_depth t + 1)],
            num_buckets := num_buckets t + 1,
            global_depth := global_depth t + 1\<rparr>)"

text \<open>
  \<open>RedistributeBucket\<close>: the loop runs over a copy of the bucket's list. An entry whose
  directory slot no longer points to the bucket is inserted into the bucket the slot points
  to (the result of that insertion is not looked at) and removed from the bucket.
\<close>

fun redistribute_loop ::
  "('k \<Rightarrow> nat) \<Rightarrow> nat \<Rightarrow> ('k \<times> 'v) list \<Rightarrow> ('k, 'v) ExtendibleHashTable
     \<Rightarrow> ('k, 'v) ExtendibleHashTable" where
  "redistribute_loop hash bucket [] t = t"
| "redistribute_loop hash bucket (it # rest) t =
     (let b = dir t ! IndexOf hash t (fst it) in
      if b \<noteq> bucket then
        (let h1 = (heap t)[b := snd (Bucket_Insert (fst it) (snd it) (heap t ! b))];
             h2 = h1[bucket := snd (Bucket_Remove (fst it) (h1 ! bucket))]
         in redistribute_loop hash bucket rest (t\<lparr>heap := h2\<rparr>))
      else redistribute_loop hash bucket rest t)"

definition RedistributeBucket ::
  "('k \<Rightarrow> nat) \<Rightarrow> nat \<Rightarrow> ('k, 'v) ExtendibleHashTable \<Rightarrow> ('k, 'v) ExtendibleHashTable" where
  "RedistributeBucket hash bucket t = redistribute_loop hash bucket (items (heap t ! bucket)) t"

definition IncrementDepth_at :: "nat \<Rightarrow> ('k, 'v) ExtendibleHashTable \<Rightarrow> ('k, 'v) ExtendibleHashTable" where
  "IncrementDepth_at a t = t\<lparr>heap := (heap t)[a := IncrementDepth (heap t ! a)]\<rparr>"

text \<open>
  The two ways \<open>Insert\<close> splits a full bucket before it retries: with the directory
  doubled when the bucket's depth is the global depth, and otherwise with a new bucket of
  depth \<open>global_depth\<close> put at one slot, \<open>idx + tmp\<close> or \<open>idx\<close>, where
  \<open>tmp = 1 << (global_depth_ - 1)\<close>.
\<close>

definition split_double ::
  "('k \<Rightarrow> nat) \<Rightarrow> nat \<Rightarrow> ('k, 'v) ExtendibleHashTable \<Rightarrow> ('k, 'v) ExtendibleHashTable" where
  "split_double hash idx t =
     (let t1 = DoubleDir idx t;
          t2 = IncrementDepth_at (dir t1 ! idx) t1
      in RedistributeBucket hash (dir t2 ! idx) t2)"

definition split_local ::
  "('k \<Rightarrow> nat) \<Rightarrow> nat \<Rightarrow> ('k, 'v) ExtendibleHashTable \<Rightarrow> ('k, 'v) ExtendibleHashTable" where
  "split_local hash idx t =
     (let t1 = IncrementDepth_at (dir t ! idx) t;
          bptr = length (heap t1);
          t2 = t1\<lparr>heap := heap t1 @ [new_Bucket (bucket_size t1) (global_depth t1)]\<rparr>;
          tmp = 2 ^ (global_depth t2 - 1)
      in if idx < tmp then
           (let t3 = t2\<lparr>dir := (dir t2)[idx + tmp := bptr]\<rparr>
            in RedistributeBucket hash (dir t3 ! idx) t3)
         else
           (let t3 = t2\<lparr>dir := (dir t2)[idx := bptr]\<rparr>
            in RedistributeBucket hash (dir t3 ! (idx - tmp)) t3))"

text \<open>
  \<open>Insert\<close>. \<open>Find\<close> on the bucket overwrites \<open>tmp\<close> with the value it finds,
  and that is the value then handed to the bucket's \<open>Insert\<close>. The retry is the
  recursive call; a call that never returns has the value \<open>None\<close>.
\<close>

partial_function (option) Insert ::
  "('k \<Rightarrow> nat) \<Rightarrow> 'k \<Rightarrow> 'v \<Rightarrow> ('k, 'v) ExtendibleHashTable
     \<Rightarrow> ('k, 'v) ExtendibleHashTable option" where
  "Insert hash key val t =
     (let idx = IndexOf hash t key; a = dir t ! idx in
      case Bucket_Find key (heap t ! a) of
        Some tmp \<Rightarrow> Some (t\<lparr>heap := (heap t)[a := snd (Bucket_Insert key tmp (heap t ! a))]\<rparr>)
      | None \<Rightarrow>
          if IsFull (heap t ! a) then
            (if GetGlobalDepth t = GetLocalDepth t idx
             then Insert hash key val (split_double hash idx t)
             else Insert hash key val (split_local hash idx t))
          else Some (t\<lparr>heap := (heap t)[a := snd (Bucket_Insert key val (heap t ! a))]\<rparr>))"

declare Insert.simps [code]


section \<open>Buffer pool manager (buffer\_pool\_manager\_instance.cpp)\<close>

text \<open>
  A frame: the payload and the metadata of \<open>Page\<close>. The class \<open>Page\<close> is not part
  of the sources. Modelled from the spec: a frame is a byte buffer of the page size with the
  resident page identifier, the pin count and the dirty flag; \<open>ResetMemory\<close> zeroes the
  payload and nothing else; a fresh frame is zeroed, holds the identifier \<open>INVALID\<close>,
  and is neither pinned nor dirty.
\<close>

record Page =
  data :: "8 word list"
  page_id :: page_id_t
  pin_count :: int
  is_dirty :: bool

definition INVALID_PAGE_ID :: page_id_t where
  "INVALID_PAGE_ID = - 1"

definition ResetMemory :: "nat \<Rightarrow> Page \<Rightarrow> Page" where
  "ResetMemory psize p = p\<lparr>data := replicate psize 0\<rparr>"

definition new_Page :: "nat \<Rightarrow> Page" where
  "new_Page psize =
     \<lparr>data = replicate psize 0, page_id = INVALID_PAGE_ID, pin_count = 0, is_dirty = False\<rparr>"

text \<open>
  The manager. The page size and the bucket size of the page table are constants of headers
  that are not part of the sources, so they are parameters of the constructor, as is the
  evictable flag of a new replacer slot. \<open>disk\<close> is the content of the disk manager,
  which \<open>WritePage\<close> updates and \<open>ReadPage\<close> reads; \<open>DeallocatePage\<close> does
  nothing to the state of the manager.
\<close>

record BufferPoolManagerInstance =
  pool_size :: nat
  page_size :: nat
  pages :: "Page list"
  page_table :: "(page_id_t, frame_id_t) ExtendibleHashTable"
  replacer :: LRUKReplacer
  free_list :: "frame_id_t list"
  next_page_id :: page_id_t
  disk :: "page_id_t \<Rightarrow> 8 word list"

definition new_BufferPoolManagerInstance ::
  "nat \<Rightarrow> nat \<Rightarrow> bool \<Rightarrow> nat \<Rightarrow> nat \<Rightarrow> (page_id_t \<Rightarrow> 8 word list)
     \<Rightarrow> BufferPoolManagerInstance" where
  "new_BufferPoolManagerInstance psize bsize e pool replacer_k_arg d =
     \<lparr>pool_size = pool, page_size = psize,
      pages = replicate pool (new_Page psize),
      page_table = new_ExtendibleHashTable bsize,
      replacer = new_LRUKReplacer e (of_nat pool) (of_nat replacer_k_arg),
      free_list = [0..<pool],
      next_page_id = 0,
      disk = d\<rparr>"

definition WritePage :: "frame_id_t \<Rightarrow> BufferPoolManagerInstance \<Rightarrow> BufferPoolManagerInstance" where
  "WritePage f b = b\<lparr>disk := (disk b)(page_id (pages b ! f) := data (pages b ! f))\<rparr>"

text \<open>
  \<open>GetNewFrame\<close>, and the same lines at the head of \<open>NewPgImp\<close>: the front of the
  free list, or else the replacer's victim.
\<close>

definition GetNewFrame ::
  "slots_iteration \<Rightarrow> BufferPoolManagerInstance
     \<Rightarrow> frame_id_t option \<times> BufferPoolManagerInstance" where
  "GetNewFrame iter b =
     (case free_list b of
        f # rest \<Rightarrow> (Some f, b\<lparr>free_list := rest\<rparr>)
      | [] \<Rightarrow> (case Evict iter (replacer b) of (r, rp) \<Rightarrow> (r, b\<lparr>replacer := rp\<rparr>)))"

definition NewPgImp ::
  "(page_id_t \<Rightarrow> nat) \<Rightarrow> slots_iteration \<Rightarrow> BufferPoolManagerInstance
     \<Rightarrow> error + ((page_id_t \<times> frame_id_t) option \<times> BufferPoolManagerInstance)" where
  "NewPgImp hash iter b0 =
     (case GetNewFrame iter b0 of
        (None, b1) \<Rightarrow> Inr (None, b1)
      | (Some f, b1) \<Rightarrow>
          (let pid = next_page_id b1;
               b2 = b1\<lparr>next_page_id := next_page_id b1 + 1\<rparr>;
               b3 = (if is_dirty (pages b2 ! f) then WritePage f b2 else b2);
               pt1 = snd (Table_Remove hash (page_id (pages b3 ! f)) (page_table b3))
           in case Insert hash pid f pt1 of
                None \<Rightarrow> Inl NoReturn
              | Some pt2 \<Rightarrow>
                  (let pg1 = ResetMemory (page_size b3) (pages b3 ! f) in
                   case RecordAccess f (replacer b3) of
                     Inl e \<Rightarrow> Inl e
                   | Inr r1 \<Rightarrow>
                       (case SetEvictable f False r1 of
                          Inl e \<Rightarrow> Inl e
                        | Inr r2 \<Rightarrow>
                            Inr (Some (pid, f),
                                 b3\<lparr>page_table := pt2, replacer := r2,
                                    pages := (pages b3)[f := pg1\<lparr>page_id := pid, pin_count := 1\<rparr>]\<rparr>)))))"

definition FetchPgImp ::
  "(page_id_t \<Rightarrow> nat) \<Rightarrow> slots_iteration \<Rightarrow> page_id_t \<Rightarrow> BufferPoolManagerInstance
     \<Rightarrow> error + (frame_id_t option \<times> BufferPoolManagerInstance)" where
  "FetchPgImp hash iter pid b0 =
     (case Find hash pid (page_table b0) of
        Some f \<Rightarrow>
          (case (if pin_count (pages b0 ! f) = 0 then SetEvictable f False (replacer b0)
                 else Inr (replacer b0)) of
             Inl e \<Rightarrow> Inl e
           | Inr r1 \<Rightarrow>
               (case RecordAccess f r1 of
                  Inl e \<Rightarrow> Inl e
                | Inr r2 \<Rightarrow>
                    Inr (Some f,
                         b0\<lparr>replacer := r2,
                            pages := (pages b0)[f := (pages b0 ! f)\<lparr>pin_count := pin_count (pages b0 ! f) + 1\<rparr>]\<rparr>)))
      | None \<Rightarrow>
          (case GetNewFrame iter b0 of
             (None, b1) \<Rightarrow> Inr (None, b1)
           | (Some f, b1) \<Rightarrow>
               (let b2 = (if is_dirty (pages b1 ! f) then WritePage f b1 else b1) in
                case (if pin_count (pages b2 ! f) = 0
                      then (case RecordAccess f (replacer b2) of
                              Inl e \<Rightarrow> Inl e
                            | Inr r \<Rightarrow> SetEvictable f False r)
                      else Inr (replacer b2)) of
                  Inl e \<Rightarrow> Inl e
                | Inr r1 \<Rightarrow>
                    (case RecordAccess f r1 of
                       Inl e \<Rightarrow> Inl e
                     | Inr r2 \<Rightarrow>
                         (let pt1 = snd (Table_Remove hash (page_id (pages b2 ! f)) (page_table b2))
                          in case Insert hash pid f pt1 of
                               None \<Rightarrow> Inl NoReturn
                             | Some pt2 \<Rightarrow>
                                 Inr (Some f,
                                      b2\<lparr>page_table := pt2, replacer := r2,
                                         pages := (pages b2)[f := (pages b2 ! f)
                                            \<lparr>data := disk b2 pid, page_id := pid,
                                             pin_count := pin_count (pages b2 ! f) + 1\<rparr>]\<rparr>))))))"

definition UnpinPgImp ::
  "(page_id_t \<Rightarrow> nat) \<Rightarrow> page_id_t \<Rightarrow> bool \<Rightarrow> BufferPoolManagerInstance
     \<Rightarrow> error + (bool \<times> BufferPoolManagerInstance)" where
  "UnpinPgImp hash pid dirty b =
     (case Find hash pid (page_table b) of
        None \<Rightarrow> Inr (False, b)
      | Some f \<Rightarrow>
          if pin_count (pages b ! f) = 0 then Inr (False, b)
          else
            (let pg1 = (pages b ! f)\<lparr>pin_count := pin_count (pages b ! f) - 1\<rparr> in
             case (if pin_count pg1 = 0 then SetEvictable f True (replacer b)
                   else Inr (replacer b)) of
               Inl e \<Rightarrow> Inl e
             | Inr r1 \<Rightarrow>
                 Inr (True, b\<lparr>replacer := r1, pages := (pages b)[f := pg1\<lparr>is_dirty := dirty\<rparr>]\<rparr>)))"

definition FlushPgImp ::
  "(page_id_t \<Rightarrow> nat) \<Rightarrow> page_id_t \<Rightarrow> BufferPoolManagerInstance
     \<Rightarrow> bool \<times> BufferPoolManagerInstance" where
  "FlushPgImp hash pid b =
     (case Find hash pid (page_table b) of
        Some f \<Rightarrow>
          (True, b\<lparr>disk := (disk b)(pid := data (pages b ! f)),
                   pages := (pages b)[f := (pages b ! f)\<lparr>is_dirty := False\<rparr>]\<rparr>)
      | None \<Rightarrow> (False, b))"

fun FlushAllPgsImp_loop ::
  "(page_id_t \<Rightarrow> nat) \<Rightarrow> nat list \<Rightarrow> BufferPoolManagerInstance \<Rightarrow> BufferPoolManagerInstance" where
  "FlushAllPgsImp_loop hash [] b = b"
| "FlushAllPgsImp_loop hash (idx # rest) b =
     FlushAllPgsImp_loop hash rest (snd (FlushPgImp hash (page_id (pages b ! idx)) b))"

definition FlushAllPgsImp ::
  "(page_id_t \<Rightarrow> nat) \<Rightarrow> BufferPoolManagerInstance \<Rightarrow> BufferPoolManagerInstance" where
  "FlushAllPgsImp hash b = FlushAllPgsImp_loop hash [0..<pool_size b] b"

definition DeletePgImp ::
  "(page_id_t \<Rightarrow> nat) \<Rightarrow> page_id_t \<Rightarrow> BufferPoolManagerInstance
     \<Rightarrow> error + (bool \<times> BufferPoolManagerInstance)" where
  "DeletePgImp hash pid b =
     (case Find hash pid (page_table b) of
        Some f \<Rightarrow>
          if pin_count (pages b ! f) \<noteq> 0 then Inr (False, b)
          else
            (let pt1 = snd (Table_Remove hash pid (page_table b)) in
             case Remove f (replacer b) of
               Inl e \<Rightarrow> Inl e
             | Inr r1 \<Rightarrow>
                 Inr (True, b\<lparr>page_table := pt1, replacer := r1,
                              pages := (pages b)[f := ResetMemory (page_size b) (pages b ! f)],
                              free_list := free_list b @ [f]\<rparr>))
      | None \<Rightarrow> Inr (True, b))"

subsection \<open>Vocabulary for the replacer's properties\<close>

text \<open>
  The slots \<open>Evict\<close> chooses among: evictable, with at least one recorded access.
  \<open>span\<close> is the distance the code computes for a slot with \<open>k\<close> accesses: its
  most recent timestamp minus its oldest stored one.
\<close>

definition candidates :: "(frame_id_t \<times> Slot) list \<Rightarrow> Slot list" where
  "candidates xs = filter (\<lambda>sl. evictable sl \<and> record_nums sl \<noteq> 0) (map snd xs)"

definition span :: "Slot \<Rightarrow> size_t" where
  "span sl = hd (records sl) - last (records sl)"

definition some_infinite :: "size_t \<Rightarrow> Slot list \<Rightarrow> bool" where
  "some_infinite k cs = (\<exists>sl \<in> set cs. record_nums sl < k)"

definition fewest_then_oldest :: "Slot list \<Rightarrow> Slot \<Rightarrow> bool" where
  "fewest_then_oldest cs ws =
     (\<forall>sl \<in> set cs. record_nums ws < record_nums sl \<or>
                     (record_nums ws = record_nums sl \<and> hd (records ws) \<le> hd (records sl)))"

definition largest_span :: "Slot list \<Rightarrow> Slot \<Rightarrow> bool" where
  "largest_span cs ws = (\<forall>sl \<in> set cs. span sl \<le> span ws)"

text \<open>
  What the parameter \<open>iter\<close> must be to stand for the iteration of a container: the
  loop visits the entries of the container, each once.
\<close>

definition iteration_order :: "slots_iteration \<Rightarrow> bool" where
  "iteration_order iter = (\<forall>xs. set (iter xs) = set xs \<and> length (iter xs) = length xs)"

text \<open>
  The histories as \<open>RecordAccess\<close> builds them while the timestamp counter has not
  wrapped around: a slot stores as many timestamps as it counts, at most \<open>k\<close>, the
  more recent ones first, all of them below the counter.
\<close>

definition histories_wf :: "LRUKReplacer \<Rightarrow> bool" where
  "histories_wf r =
     (\<forall>it \<in> set (slots r).
        length (records (snd it)) = unat (record_nums (snd it)) \<and>
        record_nums (snd it) \<le> replacer_k r \<and>
        sorted_wrt (\<lambda>s t. t < s) (records (snd it)) \<and>
        (\<forall>t \<in> set (records (snd it)). t < current_timestamp r))"

text \<open>
  The form the largest span takes in the invariant of the loop: the loop takes a slot with
  \<open>k\<close> accesses only when its span exceeds the initial maximum, zero.
\<close>

definition widest_span :: "Slot list \<Rightarrow> Slot \<Rightarrow> bool" where
  "widest_span cs ws = (0 < span ws \<and> (\<forall>sl \<in> set cs. span sl \<le> span ws))"

text \<open>The invariant of the loop of \<open>Evict\<close> after the entries \<open>xs\<close>.\<close>

definition evict_inv :: "size_t \<Rightarrow> (frame_id_t \<times> Slot) list \<Rightarrow> evict_vars \<Rightarrow> bool" where
  "evict_inv k xs v =
     (case result v of
        None \<Rightarrow> max_distance v = 0 \<and> min_record_nums v = LONG_MAX \<and>
                (\<forall>sl \<in> set (candidates xs). k \<le> record_nums sl \<and> span sl = 0)
      | Some w \<Rightarrow>
          (\<exists>ws. (w, ws) \<in> set xs \<and> evictable ws \<and> record_nums ws \<noteq> 0 \<and>
             (if some_infinite k (candidates xs)
              then record_nums ws < k \<and> min_record_nums v = record_nums ws \<and>
                   min_timestamp v = hd (records ws) \<and> fewest_then_oldest (candidates xs) ws
              else min_record_nums v = k \<and> max_distance v = span ws \<and>
                   widest_span (candidates xs) ws)))"

text \<open>The number of slots whose evictable flag is set.\<close>

definition cnt :: "(frame_id_t \<times> Slot) list \<Rightarrow> nat" where
  "cnt xs = length (filter (\<lambda>it. evictable (snd it)) xs)"

definition evictable_count :: "LRUKReplacer \<Rightarrow> nat" where
  "evictable_count r = cnt (slots r)"

text \<open>
  The replacer states that sequences of calls reach from a new replacer; a call that fails
  an assertion ends the sequence.
\<close>

inductive replacer_reachable :: "slots_iteration \<Rightarrow> LRUKReplacer \<Rightarrow> bool"
  for iter :: slots_iteration where
  reach_new: "replacer_reachable iter (new_LRUKReplacer e num_frames k)"
| reach_RecordAccess:
    "replacer_reachable iter r \<Longrightarrow> RecordAccess fid r = Inr r' \<Longrightarrow> replacer_reachable iter r'"
| reach_SetEvictable:
    "replacer_reachable iter r \<Longrightarrow> SetEvictable fid e r = Inr r' \<Longrightarrow> replacer_reachable iter r'"
| reach_Evict:
    "replacer_reachable iter r \<Longrightarrow> Evict iter r = (res, r') \<Longrightarrow> replacer_reachable iter r'"
| reach_Remove:
    "replacer_reachable iter r \<Longrightarrow> Remove fid r = Inr r' \<Longrightarrow> replacer_reachable iter r'"

text \<open>Running a list of calls, for the examples.\<close>

datatype replacer_call =
  CallRecordAccess frame_id_t | CallSetEvictable frame_id_t bool | CallEvict | CallRemove frame_id_t

fun replacer_run ::
  "slots_iteration \<Rightarrow> replacer_call list \<Rightarrow> LRUKReplacer \<Rightarrow> error + LRUKReplacer" where
  "replacer_run iter [] r = Inr r"
| "replacer_run iter (c # cs) r =
     (case (case c of
              CallRecordAccess f \<Rightarrow> RecordAccess f r
            | CallSetEvictable f e \<Rightarrow> SetEvictable f e r
            | CallEvict \<Rightarrow> Inr (snd (Evict iter r))
            | CallRemove f \<Rightarrow> Remove f r) of
        Inl e \<Rightarrow> Inl e
      | Inr r' \<Rightarrow> replacer_run iter cs r')"

subsection \<open>Vocabulary for the hash table's properties\<close>

text \<open>
  The shape of the table that keeps every access in range: the directory has
  \<open>2 ^ global_depth\<close> slots, and every slot points to an allocated bucket whose local
  depth is at most the global depth.
\<close>

definition wf_table :: "('k, 'v) ExtendibleHashTable \<Rightarrow> bool" where
  "wf_table t =
     (length (dir t) = 2 ^ global_depth t \<and>
      (\<forall>a \<in> set (dir t). a < length (heap t) \<and> depth (heap t ! a) \<le> global_depth t))"

text \<open>
  The table on which \<open>Insert\<close> calls itself, if it does, and the table it returns if
  it does not.
\<close>

definition Insert_retry ::
  "('k \<Rightarrow> nat) \<Rightarrow> 'k \<Rightarrow> ('k, 'v) ExtendibleHashTable \<Rightarrow> ('k, 'v) ExtendibleHashTable option" where
  "Insert_retry hash key t =
     (let idx = IndexOf hash t key; a = dir t ! idx in
      case Bucket_Find key (heap t ! a) of
        Some tmp \<Rightarrow> None
      | None \<Rightarrow>
          if IsFull (heap t ! a) then
            (if GetGlobalDepth t = GetLocalDepth t idx
             then Some (split_double hash idx t)
             else Some (split_local hash idx t))
          else None)"

definition Insert_final ::
  "('k \<Rightarrow> nat) \<Rightarrow> 'k \<Rightarrow> 'v \<Rightarrow> ('k, 'v) ExtendibleHashTable \<Rightarrow> ('k, 'v) ExtendibleHashTable" where
  "Insert_final hash key val t =
     (let idx = IndexOf hash t key; a = dir t ! idx in
      case Bucket_Find key (heap t ! a) of
        Some tmp \<Rightarrow> t\<lparr>heap := (heap t)[a := snd (Bucket_Insert key tmp (heap t ! a))]\<rparr>
      | None \<Rightarrow> t\<lparr>heap := (heap t)[a := snd (Bucket_Insert key val (heap t ! a))]\<rparr>)"

text \<open>
  The tables that sequences of \<open>Insert\<close> and \<open>Remove\<close> calls reach from a new
  table, with the tables on which \<open>Insert\<close> retries.
\<close>

inductive table_reachable :: "('k \<Rightarrow> nat) \<Rightarrow> ('k, 'v) ExtendibleHashTable \<Rightarrow> bool"
  for hash :: "'k \<Rightarrow> nat" where
  reach_new_table: "table_reachable hash (new_ExtendibleHashTable bsize)"
| reach_Insert:
    "table_reachable hash t \<Longrightarrow> Insert hash key val t = Some t' \<Longrightarrow> table_reachable hash t'"
| reach_Insert_retry:
    "table_reachable hash t \<Longrightarrow> Insert_retry hash key t = Some t' \<Longrightarrow> table_reachable hash t'"
| reach_Table_Remove:
    "table_reachable hash t \<Longrightarrow> table_reachable hash (snd (Table_Remove hash key t))"

text \<open>
  \<open>std::hash<int>\<close> of the standard libraries is the conversion of the key to
  \<open>size_t\<close>; it is the hash function of the examples.
\<close>

definition hash_int :: "int \<Rightarrow> nat" where
  "hash_int k = nat (k mod 2 ^ 64)"

subsection \<open>Vocabulary for the buffer pool manager's properties\<close>

text \<open>The calls of the manager, and running a list of them; a call that does not return
  normally ends the run.\<close>

datatype bpm_call =
  CallNewPage | CallFetchPage page_id_t | CallUnpinPage page_id_t bool
  | CallFlushPage page_id_t | CallFlushAllPages | CallDeletePage page_id_t

definition bpm_step ::
  "(page_id_t \<Rightarrow> nat) \<Rightarrow> slots_iteration \<Rightarrow> bpm_call \<Rightarrow> BufferPoolManagerInstance
     \<Rightarrow> error + BufferPoolManagerInstance" where
  "bpm_step hash iter c b =
     (case c of
        CallNewPage \<Rightarrow> map_sum id snd (NewPgImp hash iter b)
      | CallFetchPage pid \<Rightarrow> map_sum id snd (FetchPgImp hash iter pid b)
      | CallUnpinPage pid dirty \<Rightarrow> map_sum id snd (UnpinPgImp hash pid dirty b)
      | CallFlushPage pid \<Rightarrow> Inr (snd (FlushPgImp hash pid b))
      | CallFlushAllPages \<Rightarrow> Inr (FlushAllPgsImp hash b)
      | CallDeletePage pid \<Rightarrow> map_sum id snd (DeletePgImp hash pid b))"

fun bpm_run ::
  "(page_id_t \<Rightarrow> nat) \<Rightarrow> slots_iteration \<Rightarrow> bpm_call list \<Rightarrow> BufferPoolManagerInstance
     \<Rightarrow> error + BufferPoolManagerInstance" where
  "bpm_run hash iter [] b = Inr b"
| "bpm_run hash iter (c # cs) b =
     (case bpm_step hash iter c b of
        Inl e \<Rightarrow> Inl e
      | Inr b' \<Rightarrow> bpm_run hash iter cs b')"

section \<open>Example states\<close>

text \<open>
  Two iteration orders for the examples: by ascending key, as \<open>std::map\<close> iterates,
  and by descending key.
\<close>

definition key_order :: slots_iteration where
  "key_order xs = sort_key fst xs"

definition reverse_key_order :: slots_iteration where
  "reverse_key_order xs = rev (sort_key fst xs)"

text \<open>A replacer with an evictable slot for frame 3 and a pinned one for frame 4.\<close>

definition remove_example :: LRUKReplacer where
  "remove_example =
     \<lparr>slots = [(3, \<lparr>records = [0], record_nums = 1, evictable = True\<rparr>),
               (4, \<lparr>records = [1], record_nums = 1, evictable = False\<rparr>)],
      current_timestamp = 2, curr_size = 1, replacer_size = 7, replacer_k = 2,
      slot_evictable_default = True\<rparr>"

text \<open>
  Three frames with two accesses each (\<open>k = 2\<close>), and two frames with two and one
  accesses (\<open>k = 3\<close>), all evictable, as the calls below leave them. The parameter is
  the evictable flag of a new slot, which only \<open>curr_size\<close> depends on.
\<close>

definition evict_finite_calls :: "replacer_call list" where
  "evict_finite_calls =
     [CallRecordAccess 1, CallRecordAccess 1, CallRecordAccess 2, CallRecordAccess 3,
      CallRecordAccess 3, CallRecordAccess 2,
      CallSetEvictable 1 True, CallSetEvictable 2 True, CallSetEvictable 3 True]"

definition evict_finite_example :: "bool \<Rightarrow> LRUKReplacer" where
  "evict_finite_example e =
     \<lparr>slots = [(1, \<lparr>records = [1, 0], record_nums = 2, evictable = True\<rparr>),
               (2, \<lparr>records = [5, 2], record_nums = 2, evictable = True\<rparr>),
               (3, \<lparr>records = [4, 3], record_nums = 2, evictable = True\<rparr>)],
      current_timestamp = 6, curr_size = (if e then 3 else 6), replacer_size = 7,
      replacer_k = 2, slot_evictable_default = e\<rparr>"

definition evict_infinite_calls :: "replacer_call list" where
  "evict_infinite_calls =
     [CallRecordAccess 1, CallRecordAccess 1, CallRecordAccess 2,
      CallSetEvictable 1 True, CallSetEvictable 2 True]"

definition evict_infinite_example :: "bool \<Rightarrow> LRUKReplacer" where
  "evict_infinite_example e =
     \<lparr>slots = [(1, \<lparr>records = [1, 0], record_nums = 2, evictable = True\<rparr>),
               (2, \<lparr>records = [2], record_nums = 1, evictable = True\<rparr>)],
      current_timestamp = 3, curr_size = (if e then 2 else 4), replacer_size = 7,
      replacer_k = 3, slot_evictable_default = e\<rparr>"

text \<open>A new replacer after the first access to frame 1.\<close>

definition first_access_example :: "bool \<Rightarrow> LRUKReplacer" where
  "first_access_example e =
     \<lparr>slots = [(1, \<lparr>records = [0], record_nums = 1, evictable = e\<rparr>)],
      current_timestamp = 1, curr_size = 1, replacer_size = 7, replacer_k = 2,
      slot_evictable_default = e\<rparr>"

text \<open>Running a list of insertions, for the examples.\<close>

fun Inserts ::
  "('k \<Rightarrow> nat) \<Rightarrow> ('k \<times> 'v) list \<Rightarrow> ('k, 'v) ExtendibleHashTable
     \<Rightarrow> ('k, 'v) ExtendibleHashTable option" where
  "Inserts hash [] t = Some t"
| "Inserts hash (kv # kvs) t =
     (case Insert hash (fst kv) (snd kv) t of
        None \<Rightarrow> None
      | Some t' \<Rightarrow> Inserts hash kvs t')"

text \<open>
  A table with buckets of one entry after the keys 0, 1, 2, and after the key 3 as well;
  a table with buckets of two entries after the keys 0, 4, 8, 5, 13, 1, 3, and after the
  key 9 as well; a table with buckets of two entries after the keys 0, 8, 16, 5, 13.
\<close>

definition split_before :: "(int, nat) ExtendibleHashTable" where
  "split_before =
     \<lparr>global_depth = 2, bucket_size = 1, num_buckets = 3, dir = [0, 1, 2, 1],
      heap = [\<lparr>array_size = 1, depth = 2, items = [(0, 0)]\<rparr>,
              \<lparr>array_size = 1, depth = 1, items = [(1, 10)]\<rparr>,
              \<lparr>array_size = 1, depth = 2, items = [(2, 20)]\<rparr>]\<rparr>"

definition split_after :: "(int, nat) ExtendibleHashTable" where
  "split_after =
     \<lparr>global_depth = 2, bucket_size = 1, num_buckets = 3, dir = [0, 1, 2, 3],
      heap = [\<lparr>array_size = 1, depth = 2, items = [(0, 0)]\<rparr>,
              \<lparr>array_size = 1, depth = 2, items = [(1, 10)]\<rparr>,
              \<lparr>array_size = 1, depth = 2, items = [(2, 20)]\<rparr>,
              \<lparr>array_size = 1, depth = 2, items = [(3, 30)]\<rparr>]\<rparr>"

definition loss_before :: "(int, nat) ExtendibleHashTable" where
  "loss_before =
     \<lparr>global_depth = 3, bucket_size = 2, num_buckets = 4, dir = [0, 1, 2, 1, 3, 4, 2, 1],
      heap = [\<lparr>array_size = 2, depth = 3, items = [(0, 0), (8, 8)]\<rparr>,
              \<lparr>array_size = 2, depth = 2, items = [(1, 1), (3, 3)]\<rparr>,
              \<lparr>array_size = 2, depth = 2, items = []\<rparr>,
              \<lparr>array_size = 2, depth = 3, items = [(4, 4)]\<rparr>,
              \<lparr>array_size = 2, depth = 3, items = [(5, 5), (13, 13)]\<rparr>]\<rparr>"

definition loss_after :: "(int, nat) ExtendibleHashTable" where
  "loss_after =
     \<lparr>global_depth = 4, bucket_size = 2, num_buckets = 5,
      dir = [0, 1, 2, 1, 3, 5, 2, 1, 0, 6, 2, 1, 3, 5, 2, 1],
      heap = [\<lparr>array_size = 2, depth = 3, items = [(0, 0), (8, 8)]\<rparr>,
              \<lparr>array_size = 2, depth = 4, items = [(1, 1), (3, 3)]\<rparr>,
              \<lparr>array_size = 2, depth = 2, items = []\<rparr>,
              \<lparr>array_size = 2, depth = 3, items = [(4, 4)]\<rparr>,
              \<lparr>array_size = 2, depth = 3, items = [(5, 5), (13, 13)]\<rparr>,
              \<lparr>array_size = 2, depth = 3, items = []\<rparr>,
              \<lparr>array_size = 2, depth = 4, items = [(9, 9)]\<rparr>]\<rparr>"

definition loop_example :: "(int, nat) ExtendibleHashTable" where
  "loop_example =
     \<lparr>global_depth = 4, bucket_size = 2, num_buckets = 5,
      dir = [0, 1, 2, 1, 3, 1, 2, 1, 4, 1, 2, 1, 3, 1, 2, 1],
      heap = [\<lparr>array_size = 2, depth = 4, items = [(0, 0), (16, 16)]\<rparr>,
              \<lparr>array_size = 2, depth = 1, items = [(5, 5), (13, 13)]\<rparr>,
              \<lparr>array_size = 2, depth = 2, items = []\<rparr>,
              \<lparr>array_size = 2, depth = 3, items = []\<rparr>,
              \<lparr>array_size = 2, depth = 4, items = [(8, 8)]\<rparr>]\<rparr>"

text \<open>The invariant of the retries of \<open>Insert\<close> of the key 1 into \<open>loop_example\<close>.\<close>

definition loop_inv :: "(int, nat) ExtendibleHashTable \<Rightarrow> bool" where
  "loop_inv t =
     (wf_table t \<and> 4 \<le> global_depth t \<and>
      dir t ! 1 = 1 \<and> dir t ! 5 = 1 \<and> dir t ! 13 = 1 \<and>
      array_size (heap t ! 1) = 2 \<and> items (heap t ! 1) = [(5, 5), (13, 13)])"

text \<open>A table with one entry, and the same table after the key is inserted again.\<close>

definition one_entry_example :: "(int, nat) ExtendibleHashTable" where
  "one_entry_example =
     \<lparr>global_depth = 0, bucket_size = 2, num_buckets = 1, dir = [0],
      heap = [\<lparr>array_size = 2, depth = 0, items = [(1, 10)]\<rparr>]\<rparr>"

text \<open>
  A pool of one frame with pages of four bytes, a page table with buckets of two entries,
  and \<open>k = 2\<close>. The parameter is the evictable flag of a new replacer slot.
\<close>

definition example_disk :: "page_id_t \<Rightarrow> 8 word list" where
  "example_disk = (\<lambda>_. [7, 7, 7, 7])"

definition example_pool :: "bool \<Rightarrow> nat \<Rightarrow> BufferPoolManagerInstance" where
  "example_pool e n = new_BufferPoolManagerInstance 4 2 e n 2 example_disk"

text \<open>
  The pool of one frame after \<open>NewPage\<close> (page 0), \<open>FetchPage(0)\<close> and
  \<open>UnpinPage(0, true)\<close>, and then after \<open>UnpinPage(0, false)\<close>.
\<close>

definition unpin_dirty_example :: "bool \<Rightarrow> BufferPoolManagerInstance" where
  "unpin_dirty_example e =
     \<lparr>pool_size = 1, page_size = 4,
      pages = [\<lparr>data = replicate 4 0, page_id = 0, pin_count = 1, is_dirty = True\<rparr>],
      page_table =
        \<lparr>global_depth = 0, bucket_size = 2, num_buckets = 1, dir = [0],
         heap = [\<lparr>array_size = 2, depth = 0, items = [(0, 0)]\<rparr>]\<rparr>,
      replacer =
        \<lparr>slots = [(0, \<lparr>records = [1, 0], record_nums = 2, evictable = False\<rparr>)],
         current_timestamp = 2, curr_size = (if e then 0 else 1), replacer_size = 1,
         replacer_k = 2, slot_evictable_default = e\<rparr>,
      free_list = [], next_page_id = 1, disk = example_disk\<rparr>"

definition unpin_clean_example :: "bool \<Rightarrow> BufferPoolManagerInstance" where
  "unpin_clean_example e =
     \<lparr>pool_size = 1, page_size = 4,
      pages = [\<lparr>data = replicate 4 0, page_id = 0, pin_count = 0, is_dirty = False\<rparr>],
      page_table =
        \<lparr>global_depth = 0, bucket_size = 2, num_buckets = 1, dir = [0],
         heap = [\<lparr>array_size = 2, depth = 0, items = [(0, 0)]\<rparr>]\<rparr>,
      replacer =
        \<lparr>slots = [(0, \<lparr>records = [1, 0], record_nums = 2, evictable = True\<rparr>)],
         current_timestamp = 2, curr_size = (if e then 1 else 2), replacer_size = 1,
         replacer_k = 2, slot_evictable_default = e\<rparr>,
      free_list = [], next_page_id = 1, disk = example_disk\<rparr>"

text \<open>
  The pool of one frame, with evictable new slots, after \<open>NewPage\<close> (page 0) and
  \<open>UnpinPage(0, true)\<close>, and then after a second \<open>NewPage\<close> (page 1), which evicts
  page 0 and writes it to the disk.
\<close>

definition dirty_unpinned_example :: BufferPoolManagerInstance where
  "dirty_unpinned_example =
     \<lparr>pool_size = 1, page_size = 4,
      pages = [\<lparr>data = replicate 4 0, page_id = 0, pin_count = 0, is_dirty = True\<rparr>],
      page_table =
        \<lparr>global_depth = 0, bucket_size = 2, num_buckets = 1, dir = [0],
         heap = [\<lparr>array_size = 2, depth = 0, items = [(0, 0)]\<rparr>]\<rparr>,
      replacer =
        \<lparr>slots = [(0, \<lparr>records = [0], record_nums = 1, evictable = True\<rparr>)],
         current_timestamp = 1, curr_size = 1, replacer_size = 1,
         replacer_k = 2, slot_evictable_default = True\<rparr>,
      free_list = [], next_page_id = 1, disk = example_disk\<rparr>"

definition new_page_dirty_example :: BufferPoolManagerInstance where
  "new_page_dirty_example =
     \<lparr>pool_size = 1, page_size = 4,
      pages = [\<lparr>data = replicate 4 0, page_id = 1, pin_count = 1, is_dirty = True\<rparr>],
      page_table =
        \<lparr>global_depth = 0, bucket_size = 2, num_buckets = 1, dir = [0],
         heap = [\<lparr>array_size = 2, depth = 0, items = [(1, 0)]\<rparr>]\<rparr>,
      replacer =
        \<lparr>slots = [(0, \<lparr>records = [1], record_nums = 1, evictable = False\<rparr>)],
         current_timestamp = 2, curr_size = 0, replacer_size = 1,
         replacer_k = 2, slot_evictable_default = True\<rparr>,
      free_list = [], next_page_id = 2, disk = example_disk(0 := replicate 4 0)\<rparr>"

text \<open>
  A pool of two frames after \<open>FetchPage(0)\<close>, which reads page 0 from the disk into
  frame 0, and then after \<open>NewPage\<close>, which allocates the identifier 0 for frame 1.
\<close>

definition fetched_example :: "bool \<Rightarrow> BufferPoolManagerInstance" where
  "fetched_example e =
     \<lparr>pool_size = 2, page_size = 4,
      pages = [\<lparr>data = [7, 7, 7, 7], page_id = 0, pin_count = 1, is_dirty = False\<rparr>,
               \<lparr>data = replicate 4 0, page_id = - 1, pin_count = 0, is_dirty = False\<rparr>],
      page_table =
        \<lparr>global_depth = 0, bucket_size = 2, num_buckets = 1, dir = [0],
         heap = [\<lparr>array_size = 2, depth = 0, items = [(0, 0)]\<rparr>]\<rparr>,
      replacer =
        \<lparr>slots = [(0, \<lparr>records = [1, 0], record_nums = 2, evictable = False\<rparr>)],
         current_timestamp = 2, curr_size = (if e then 0 else 1), replacer_size = 2,
         replacer_k = 2, slot_evictable_default = e\<rparr>,
      free_list = [1], next_page_id = 0, disk = example_disk\<rparr>"

definition new_page_resident_example :: "bool \<Rightarrow> BufferPoolManagerInstance" where
  "new_page_resident_example e =
     \<lparr>pool_size = 2, page_size = 4,
      pages = [\<lparr>data = [7, 7, 7, 7], page_id = 0, pin_count = 1, is_dirty = False\<rparr>,
               \<lparr>data = replicate 4 0, page_id = 0, pin_count = 1, is_dirty = False\<rparr>],
      page_table =
        \<lparr>global_depth = 0, bucket_size = 2, num_buckets = 1, dir = [0],
         heap = [\<lparr>array_size = 2, depth = 0, items = [(0, 0)]\<rparr>]\<rparr>,
      replacer =
        \<lparr>slots = [(0, \<lparr>records = [1, 0], record_nums = 2, evictable = False\<rparr>),
                  (1, \<lparr>records = [2], record_nums = 1, evictable = False\<rparr>)],
         current_timestamp = 3, curr_size = (if e then 0 else 2), replacer_size = 2,
         replacer_k = 2, slot_evictable_default = e\<rparr>,
      free_list = [], next_page_id = 1, disk = example_disk\<rparr>"

text \<open>
  The pool of one frame after \<open>NewPage\<close> (page 0) and \<open>UnpinPage(0, false)\<close>, and
  then after \<open>DeletePage(0)\<close>.
\<close>

definition unpinned_example :: "bool \<Rightarrow> BufferPoolManagerInstance" where
  "unpinned_example e =
     \<lparr>pool_size = 1, page_size = 4,
      pages = [\<lparr>data = replicate 4 0, page_id = 0, pin_count = 0, is_dirty = False\<rparr>],
      page_table =
        \<lparr>global_depth = 0, bucket_size = 2, num_buckets = 1, dir = [0],
         heap = [\<lparr>array_size = 2, depth = 0, items = [(0, 0)]\<rparr>]\<rparr>,
      replacer =
        \<lparr>slots = [(0, \<lparr>records = [0], record_nums = 1, evictable = True\<rparr>)],
         current_timestamp = 1, curr_size = (if e then 1 else 2), replacer_size = 1,
         replacer_k = 2, slot_evictable_default = e\<rparr>,
      free_list = [], next_page_id = 1, disk = example_disk\<rparr>"

definition deleted_example :: "bool \<Rightarrow> BufferPoolManagerInstance" where
  "deleted_example e =
     \<lparr>pool_size = 1, page_size = 4,
      pages = [\<lparr>data = replicate 4 0, page_id = 0, pin_count = 0, is_dirty = False\<rparr>],
      page_table =
        \<lparr>global_depth = 0, bucket_size = 2, num_buckets = 1, dir = [0],
         heap = [\<lparr>array_size = 2, depth = 0, items = []\<rparr>]\<rparr>,
      replacer =
        \<lparr>slots = [], current_timestamp = 1, curr_size = (if e then 0 else 1),
         replacer_size = 1, replacer_k = 2, slot_evictable_default = e\<rparr>,
      free_list = [0], next_page_id = 1, disk = example_disk\<rparr>"

text \<open>
  A pool of two frames, with evictable new slots, after \<open>NewPage\<close> (page 0),
  \<open>UnpinPage(0, false)\<close>, \<open>DeletePage(0)\<close>, \<open>FetchPage(0)\<close> (into frame 1) and
  \<open>NewPage\<close> (page 1, into frame 0, which still carries the identifier 0).
\<close>

definition lost_entry_example :: BufferPoolManagerInstance where
  "lost_entry_example =
     \<lparr>pool_size = 2, page_size = 4,
      pages = [\<lparr>data = replicate 4 0, page_id = 1, pin_count = 1, is_dirty = False\<rparr>,
               \<lparr>data = [7, 7, 7, 7], page_id = 0, pin_count = 1, is_dirty = False\<rparr>],
      page_table =
        \<lparr>global_depth = 0, bucket_size = 2, num_buckets = 1, dir = [0],
         heap = [\<lparr>array_size = 2, depth = 0, items = [(1, 0)]\<rparr>]\<rparr>,
      replacer =
        \<lparr>slots = [(1, \<lparr>records = [2, 1], record_nums = 2, evictable = False\<rparr>),
                  (0, \<lparr>records = [3], record_nums = 1, evictable = False\<rparr>)],
         current_timestamp = 4, curr_size = 0, replacer_size = 2,
         replacer_k = 2, slot_evictable_default = True\<rparr>,
      free_list = [], next_page_id = 2, disk = example_disk\<rparr>"

section \<open>Verified properties\<close>

subsection \<open>The replacer's Remove\<close>

text \<open>
  Claim C10. \<open>LRUKReplacer::Remove\<close> on a frame that has no slot returns without an
  assertion failure and leaves the whole state, and so \<open>Size()\<close>, as it was. On a frame
  that has a slot it fails the assertion when the slot is not evictable, and otherwise erases
  the slot, leaves every other slot alone, and decrements \<open>Size()\<close> by one.
\<close>

theorem Remove_contract:
  "(map_of (slots r) fid = None \<longrightarrow> Remove fid r = Inr r) \<and>
   (\<forall>sl. map_of (slots r) fid = Some sl \<longrightarrow>
      (\<not> evictable sl \<longrightarrow> Remove fid r = Inl AssertionFailure) \<and>
      (evictable sl \<longrightarrow>
         (\<exists>r'. Remove fid r = Inr r' \<and> Size r' = Size r - 1 \<and>
               map_of (slots r') fid = None \<and>
               (\<forall>g. g \<noteq> fid \<longrightarrow> map_of (slots r') g = map_of (slots r) g))))"
  by (simp add: Remove_def Size_def AList.delete_conv')

theorem Remove_contract_witness:
  "Remove 5 remove_example = Inr remove_example \<and>
   Remove 4 remove_example = Inl AssertionFailure \<and>
   (\<exists>r'. Remove 3 remove_example = Inr r' \<and> Size r' = 0 \<and> map_of (slots r') 3 = None)"
  using Remove_contract [of remove_example 5] Remove_contract [of remove_example 4]
    Remove_contract [of remove_example 3]
  by (auto simp add: remove_example_def Size_def)

subsection \<open>The victim of Evict\<close>

lemma candidates_snoc:
  "candidates (xs @ [x]) =
     (if evictable (snd x) \<and> record_nums (snd x) \<noteq> 0 then candidates xs @ [snd x]
      else candidates xs)"
  by (simp add: candidates_def)

lemma evict_inv_init: "evict_inv k [] evict_init"
  by (simp add: evict_inv_def evict_init_def candidates_def)

lemma evict_inv_None:
  "result v = None \<Longrightarrow>
   evict_inv k xs v =
     (max_distance v = 0 \<and> min_record_nums v = LONG_MAX \<and>
      (\<forall>sl \<in> set (candidates xs). k \<le> record_nums sl \<and> span sl = 0))"
  by (simp add: evict_inv_def)

lemma evict_inv_inf_I:
  "result v = Some w \<Longrightarrow> (w, ws) \<in> set xs \<Longrightarrow> evictable ws \<Longrightarrow> record_nums ws \<noteq> 0 \<Longrightarrow>
   some_infinite k (candidates xs) \<Longrightarrow> record_nums ws < k \<Longrightarrow>
   min_record_nums v = record_nums ws \<Longrightarrow> min_timestamp v = hd (records ws) \<Longrightarrow>
   fewest_then_oldest (candidates xs) ws \<Longrightarrow> evict_inv k xs v"
  unfolding evict_inv_def by (simp, rule exI [of _ ws], simp)

lemma evict_inv_fin_I:
  "result v = Some w \<Longrightarrow> (w, ws) \<in> set xs \<Longrightarrow> evictable ws \<Longrightarrow> record_nums ws \<noteq> 0 \<Longrightarrow>
   \<not> some_infinite k (candidates xs) \<Longrightarrow> min_record_nums v = k \<Longrightarrow>
   max_distance v = span ws \<Longrightarrow> widest_span (candidates xs) ws \<Longrightarrow> evict_inv k xs v"
  unfolding evict_inv_def by (simp, rule exI [of _ ws], simp)

lemma evict_inv_inf_D:
  "evict_inv k xs v \<Longrightarrow> result v = Some w \<Longrightarrow> some_infinite k (candidates xs) \<Longrightarrow>
   \<exists>ws. (w, ws) \<in> set xs \<and> evictable ws \<and> record_nums ws \<noteq> 0 \<and> record_nums ws < k \<and>
        min_record_nums v = record_nums ws \<and> min_timestamp v = hd (records ws) \<and>
        fewest_then_oldest (candidates xs) ws"
  unfolding evict_inv_def by simp

lemma evict_inv_fin_D:
  "evict_inv k xs v \<Longrightarrow> result v = Some w \<Longrightarrow> \<not> some_infinite k (candidates xs) \<Longrightarrow>
   \<exists>ws. (w, ws) \<in> set xs \<and> evictable ws \<and> record_nums ws \<noteq> 0 \<and>
        min_record_nums v = k \<and> max_distance v = span ws \<and> widest_span (candidates xs) ws"
  unfolding evict_inv_def by simp

lemma evict_inv_not_None:
  assumes "evict_inv k xs v" and "some_infinite k (candidates xs)"
  shows "result v \<noteq> None"
proof
  assume "result v = None"
  with assms(1) have "\<forall>s \<in> set (candidates xs). k \<le> record_nums s"
    by (simp add: evict_inv_None)
  with assms(2) show False unfolding some_infinite_def by (meson not_le)
qed

text \<open>An entry that is not evictable, or has no recorded access, is passed over.\<close>

lemma evict_inv_skip:
  assumes "evict_inv k xs v" and "\<not> (evictable (snd x) \<and> record_nums (snd x) \<noteq> 0)"
  shows "evict_inv k (xs @ [x]) (evict_step k v x)"
proof -
  have s: "evict_step k v x = v" using assms(2) by (auto simp: evict_step_def Let_def)
  have c: "candidates (xs @ [x]) = candidates xs" using assms(2) by (simp add: candidates_snoc)
  show ?thesis
  proof (cases "result v")
    case None
    with assms(1) show ?thesis by (simp add: s c evict_inv_None)
  next
    case (Some w)
    show ?thesis
    proof (cases "some_infinite k (candidates xs)")
      case True
      from evict_inv_inf_D [OF assms(1) Some True] obtain ws where
        "(w, ws) \<in> set xs" "evictable ws" "record_nums ws \<noteq> 0" "record_nums ws < k"
        "min_record_nums v = record_nums ws" "min_timestamp v = hd (records ws)"
        "fewest_then_oldest (candidates xs) ws" by blast
      then show ?thesis unfolding s
        by (intro evict_inv_inf_I [of v w ws]) (simp_all add: Some c True)
    next
      case False
      from evict_inv_fin_D [OF assms(1) Some False] obtain ws where
        "(w, ws) \<in> set xs" "evictable ws" "record_nums ws \<noteq> 0"
        "min_record_nums v = k" "max_distance v = span ws" "widest_span (candidates xs) ws"
        by blast
      then show ?thesis unfolding s
        by (intro evict_inv_fin_I [of v w ws]) (simp_all add: Some c False)
    qed
  qed
qed

lemma fewest_then_oldest_snoc:
  "fewest_then_oldest (cs @ [sl]) ws =
     (fewest_then_oldest cs ws \<and>
      (record_nums ws < record_nums sl \<or>
       (record_nums ws = record_nums sl \<and> hd (records ws) \<le> hd (records sl))))"
  by (auto simp: fewest_then_oldest_def)

lemma widest_span_snoc:
  "widest_span (cs @ [sl]) ws = (widest_span cs ws \<and> span sl \<le> span ws)"
  by (auto simp: widest_span_def)

lemma some_infinite_snoc:
  "some_infinite k (cs @ [sl]) = (some_infinite k cs \<or> record_nums sl < k)"
  by (auto simp: some_infinite_def)

lemma fewest_then_oldest_better:
  assumes "fewest_then_oldest cs ws"
    and "record_nums sl < record_nums ws \<or>
         (record_nums sl = record_nums ws \<and> hd (records sl) \<le> hd (records ws))"
  shows "fewest_then_oldest cs sl"
  unfolding fewest_then_oldest_def
proof
  fix s assume "s \<in> set cs"
  with assms(1) have "record_nums ws < record_nums s \<or>
      (record_nums ws = record_nums s \<and> hd (records ws) \<le> hd (records s))"
    by (simp add: fewest_then_oldest_def)
  with assms(2) show "record_nums sl < record_nums s \<or>
      (record_nums sl = record_nums s \<and> hd (records sl) \<le> hd (records s))"
    by auto
qed

lemma fewest_then_oldest_all_finite:
  assumes "\<not> some_infinite k cs" and "record_nums sl < k"
  shows "fewest_then_oldest cs sl"
  unfolding fewest_then_oldest_def
proof
  fix s assume "s \<in> set cs"
  with assms(1) have "\<not> record_nums s < k" by (auto simp: some_infinite_def)
  with assms(2) show "record_nums sl < record_nums s \<or>
      (record_nums sl = record_nums s \<and> hd (records sl) \<le> hd (records s))"
    by auto
qed

lemma widest_span_better:
  assumes "widest_span cs ws" and "span ws \<le> span sl"
  shows "widest_span cs sl"
  unfolding widest_span_def
proof (intro conjI ballI)
  from assms show "0 < span sl" unfolding widest_span_def by auto
next
  fix s assume "s \<in> set cs"
  with assms(1) have "span s \<le> span ws" by (simp add: widest_span_def)
  with assms(2) show "span s \<le> span sl" by order
qed

lemma evict_inv_infinite:
  assumes inv: "evict_inv k xs v" and k: "k \<le> LONG_MAX"
    and sl: "evictable sl" "record_nums sl \<noteq> 0" "record_nums sl < k"
  shows "evict_inv k (xs @ [(f, sl)]) (evict_step k v (f, sl))"
proof -
  have cs: "candidates (xs @ [(f, sl)]) = candidates xs @ [sl]"
    using sl by (simp add: candidates_snoc)
  have ex: "some_infinite k (candidates xs @ [sl])"
    using sl by (simp add: some_infinite_snoc)
  let ?new = "v\<lparr>result := Some f, min_record_nums := record_nums sl,
                 min_timestamp := hd (records sl)\<rparr>"
  have new: "evict_inv k (xs @ [(f, sl)]) ?new" if "fewest_then_oldest (candidates xs) sl"
    apply (rule evict_inv_inf_I [of _ f sl])
    using that sl ex by (simp_all add: cs fewest_then_oldest_snoc)
  have take: "evict_step k v (f, sl) = ?new" if "record_nums sl < min_record_nums v"
    using sl that by (simp add: evict_step_def Let_def)
  show ?thesis
  proof (cases "some_infinite k (candidates xs)")
    case False
    have "record_nums sl < min_record_nums v"
    proof (cases "result v")
      case None
      with inv have "min_record_nums v = LONG_MAX" by (simp add: evict_inv_None)
      with sl k show ?thesis by simp
    next
      case (Some w)
      from evict_inv_fin_D [OF inv Some False] have "min_record_nums v = k" by blast
      with sl show ?thesis by simp
    qed
    with take new fewest_then_oldest_all_finite [OF False sl(3)] show ?thesis by simp
  next
    case True
    have "result v \<noteq> None"
    proof
      assume "result v = None"
      with inv have "\<forall>s \<in> set (candidates xs). k \<le> record_nums s" by (simp add: evict_inv_None)
      with True show False unfolding some_infinite_def by (meson not_le)
    qed
    then obtain w where Some: "result v = Some w" by blast
    from evict_inv_inf_D [OF inv Some True] obtain ws where
      ws: "(w, ws) \<in> set xs" "evictable ws" "record_nums ws \<noteq> 0" "record_nums ws < k"
      and mr: "min_record_nums v = record_nums ws" and mt: "min_timestamp v = hd (records ws)"
      and best: "fewest_then_oldest (candidates xs) ws" by blast
    consider (less) "record_nums sl < record_nums ws"
      | (eqless) "record_nums sl = record_nums ws" "hd (records sl) < hd (records ws)"
      | (keep) "\<not> record_nums sl < record_nums ws"
               "\<not> (record_nums sl = record_nums ws \<and> hd (records sl) < hd (records ws))"
      by blast
    then show ?thesis
    proof cases
      case less
      with take mr new fewest_then_oldest_better [OF best, of sl] show ?thesis by simp
    next
      case eqless
      have s: "evict_step k v (f, sl) = v\<lparr>result := Some f, min_timestamp := hd (records sl)\<rparr>"
        using sl eqless mr mt by (simp add: evict_step_def Let_def)
      have b: "fewest_then_oldest (candidates xs) sl"
        using fewest_then_oldest_better [OF best, of sl] eqless by simp
      show ?thesis unfolding s
        apply (rule evict_inv_inf_I [of _ f sl])
        using sl ex b mr eqless(1) by (simp_all add: cs fewest_then_oldest_snoc)
    next
      case keep
      have s: "evict_step k v (f, sl) = v"
        using sl keep mr mt by (auto simp: evict_step_def Let_def)
      have b: "record_nums ws < record_nums sl \<or>
                 (record_nums ws = record_nums sl \<and> hd (records ws) \<le> hd (records sl))"
        using keep by auto
      show ?thesis unfolding s
        apply (rule evict_inv_inf_I [of _ w ws])
        using Some ws ex b mr mt best by (simp_all add: cs fewest_then_oldest_snoc)
    qed
  qed
qed

lemma evict_inv_finite:
  assumes inv: "evict_inv k xs v" and k: "k \<le> LONG_MAX"
    and sl: "evictable sl" "record_nums sl \<noteq> 0" "\<not> record_nums sl < k"
  shows "evict_inv k (xs @ [(f, sl)]) (evict_step k v (f, sl))"
proof -
  have cs: "candidates (xs @ [(f, sl)]) = candidates xs @ [sl]"
    using sl by (simp add: candidates_snoc)
  have ex: "some_infinite k (candidates xs @ [sl]) = some_infinite k (candidates xs)"
    using sl by (simp add: some_infinite_snoc)
  have tmp: "hd (records sl) - last (records sl) = span sl" by (simp add: span_def)
  let ?new = "v\<lparr>result := Some f, min_record_nums := k, max_distance := span sl\<rparr>"
  have take: "evict_step k v (f, sl) = ?new"
    if "\<not> min_record_nums v < k" "max_distance v < span sl"
    using sl that by (simp add: evict_step_def Let_def tmp)
  have keep: "evict_step k v (f, sl) = v" if "min_record_nums v < k \<or> \<not> max_distance v < span sl"
    using sl that by (auto simp: evict_step_def Let_def tmp)
  show ?thesis
  proof (cases "some_infinite k (candidates xs)")
    case True
    have "result v \<noteq> None"
    proof
      assume "result v = None"
      with inv have "\<forall>s \<in> set (candidates xs). k \<le> record_nums s" by (simp add: evict_inv_None)
      with True show False unfolding some_infinite_def by (meson not_le)
    qed
    then obtain w where Some: "result v = Some w" by blast
    from evict_inv_inf_D [OF inv Some True] obtain ws where
      ws: "(w, ws) \<in> set xs" "evictable ws" "record_nums ws \<noteq> 0" "record_nums ws < k"
      and mr: "min_record_nums v = record_nums ws" and mt: "min_timestamp v = hd (records ws)"
      and best: "fewest_then_oldest (candidates xs) ws" by blast
    have s: "evict_step k v (f, sl) = v" using keep ws mr by simp
    have b: "record_nums ws < record_nums sl" using ws(4) sl(3) by simp
    show ?thesis unfolding s
      apply (rule evict_inv_inf_I [of _ w ws])
      using Some ws True b mr mt best by (simp_all add: cs ex fewest_then_oldest_snoc)
  next
    case False
    show ?thesis
    proof (cases "result v")
      case None
      with inv have v: "max_distance v = 0" "min_record_nums v = LONG_MAX"
        and old: "\<forall>s \<in> set (candidates xs). k \<le> record_nums s \<and> span s = 0"
        by (simp_all add: evict_inv_None)
      have nlt: "\<not> min_record_nums v < k" using k v by simp
      show ?thesis
      proof (cases "0 < span sl")
        case True
        have s: "evict_step k v (f, sl) = ?new" using take nlt v True by simp
        have w: "widest_span (candidates xs) sl"
          using old True by (simp add: widest_span_def)
        show ?thesis unfolding s
          apply (rule evict_inv_fin_I [of _ f sl])
          using sl False w by (simp_all add: cs ex widest_span_snoc)
      next
        case nz: False
        have s: "evict_step k v (f, sl) = v" using keep nz v by simp
        have z: "span sl = 0" using nz by (simp add: word_gt_0)
        show ?thesis unfolding s using None v old z sl(3)
          by (simp add: evict_inv_None cs)
      qed
    next
      case (Some w)
      from evict_inv_fin_D [OF inv Some False] obtain ws where
        ws: "(w, ws) \<in> set xs" "evictable ws" "record_nums ws \<noteq> 0"
        and mr: "min_record_nums v = k" and md: "max_distance v = span ws"
        and best: "widest_span (candidates xs) ws"
        by blast
      show ?thesis
      proof (cases "span ws < span sl")
        case True
        have s: "evict_step k v (f, sl) = ?new" using take mr md True by simp
        have w: "widest_span (candidates xs) sl"
          using widest_span_better [OF best, of sl] True by simp
        show ?thesis unfolding s
          apply (rule evict_inv_fin_I [of _ f sl])
          using sl False w by (simp_all add: cs ex widest_span_snoc)
      next
        case nl: False
        have s: "evict_step k v (f, sl) = v" using keep md nl by simp
        have b: "span sl \<le> span ws" using nl by simp
        show ?thesis unfolding s
          apply (rule evict_inv_fin_I [of _ w ws])
          using Some ws False b mr md best by (simp_all add: cs ex widest_span_snoc)
      qed
    qed
  qed
qed

lemma evict_inv_step:
  assumes "evict_inv k xs v" and "k \<le> LONG_MAX"
  shows "evict_inv k (xs @ [x]) (evict_step k v x)"
proof -
  obtain f sl where x: "x = (f, sl)" by (cases x)
  show ?thesis
    using evict_inv_skip [OF assms(1), of x] evict_inv_infinite [OF assms, of sl f]
      evict_inv_finite [OF assms, of sl f]
    unfolding x by fastforce
qed

lemma evict_inv_scan: "k \<le> LONG_MAX \<Longrightarrow> evict_inv k xs (evict_scan k xs)"
proof (induction xs rule: rev_induct)
  case Nil
  then show ?case by (simp add: evict_scan_def evict_inv_init)
next
  case (snoc x xs)
  then show ?case using evict_inv_step [of k xs "evict_scan k xs" x]
    by (simp add: evict_scan_def)
qed

text \<open>
  The loop's result does not depend on the order of the iteration further than through the
  choice among candidates that compare equal: the properties below speak of the set of
  candidates only.
\<close>

lemma candidates_set:
  "set (candidates xs) = {sl \<in> snd ` set xs. evictable sl \<and> record_nums sl \<noteq> 0}"
  by (auto simp: candidates_def)

lemma iteration_order_set: "iteration_order iter \<Longrightarrow> set (iter xs) = set xs"
  by (simp add: iteration_order_def)

lemma iteration_order_candidates:
  "iteration_order iter \<Longrightarrow> set (candidates (iter xs)) = set (candidates xs)"
  by (simp add: candidates_set iteration_order_set)

lemma iteration_order_key_order: "iteration_order key_order"
  by (simp add: iteration_order_def key_order_def)

lemma iteration_order_reverse_key_order: "iteration_order reverse_key_order"
  by (simp add: iteration_order_def reverse_key_order_def)

text \<open>
  The histories: \<open>histories_wf\<close> holds of a new replacer and is kept by every operation,
  by \<open>RecordAccess\<close> as long as the timestamp counter does not wrap around.
\<close>

lemma set_update_subset: "set (AList.update k v al) \<subseteq> insert (k, v) (set al)"
  by (induction al) auto

lemma set_delete_subset: "set (AList.delete k al) \<subseteq> set al"
  by (induction al) auto

lemma histories_wf_new: "histories_wf (new_LRUKReplacer e num_frames k)"
  by (simp add: histories_wf_def new_LRUKReplacer_def)

lemma word_lt_succ: "(c::size_t) + 1 \<noteq> 0 \<Longrightarrow> c < c + 1"
  by (metis add.commute add.right_inverse inc_less_eq_iff word_le_less_eq)

lemma unat_succ:
  assumes "(n::size_t) < k"
  shows "unat (n + 1) = Suc (unat n)"
proof -
  from assms have "unat n < unat k" by (simp add: word_less_nat_alt)
  moreover have "unat k < 2 ^ 64" using unsigned_less [of k] by simp
  ultimately have "unat n + 1 < 2 ^ 64" by simp
  then show ?thesis by (simp add: unat_word_ariths)
qed

lemma histories_wf_RecordAccess:
  assumes wf: "histories_wf r" and k: "1 \<le> replacer_k r"
    and nowrap: "current_timestamp r + 1 \<noteq> 0"
    and ra: "RecordAccess fid r = Inr r'"
  shows "histories_wf r'"
proof -
  define c where "c = current_timestamp r"
  have old: "length (records sl) = unat (record_nums sl) \<and> record_nums sl \<le> replacer_k r \<and>
      sorted_wrt (\<lambda>s t. t < s) (records sl) \<and> (\<forall>t \<in> set (records sl). t < c)"
    if "(f, sl) \<in> set (slots r)" for f sl
    using wf that by (auto simp: histories_wf_def c_def)
  have cc: "c < c + 1" using nowrap by (simp add: c_def word_lt_succ)
  have up: "\<And>t. t < c \<Longrightarrow> t < c + 1" using cc by (rule order.strict_trans [rotated])
  have new: "length (records sl') = unat (record_nums sl') \<and> record_nums sl' \<le> replacer_k r \<and>
      sorted_wrt (\<lambda>s t. t < s) (records sl') \<and> (\<forall>t \<in> set (records sl'). t < c + 1) \<Longrightarrow>
      histories_wf (r\<lparr>slots := AList.update fid sl' (slots r), curr_size := n,
                      current_timestamp := c + 1\<rparr>)" for sl' n
    unfolding histories_wf_def
  proof (intro ballI)
    fix it
    assume a: "length (records sl') = unat (record_nums sl') \<and> record_nums sl' \<le> replacer_k r \<and>
      sorted_wrt (\<lambda>s t. t < s) (records sl') \<and> (\<forall>t \<in> set (records sl'). t < c + 1)"
    assume "it \<in> set (slots (r\<lparr>slots := AList.update fid sl' (slots r), curr_size := n,
                      current_timestamp := c + 1\<rparr>))"
    with set_update_subset [of fid sl' "slots r"]
    have "it = (fid, sl') \<or> it \<in> set (slots r)" by auto
    then show "length (records (snd it)) = unat (record_nums (snd it)) \<and>
        record_nums (snd it)
          \<le> replacer_k (r\<lparr>slots := AList.update fid sl' (slots r), curr_size := n,
                           current_timestamp := c + 1\<rparr>) \<and>
        sorted_wrt (\<lambda>s t. t < s) (records (snd it)) \<and>
        (\<forall>t \<in> set (records (snd it)).
           t < current_timestamp (r\<lparr>slots := AList.update fid sl' (slots r), curr_size := n,
                                    current_timestamp := c + 1\<rparr>))"
    proof
      assume "it = (fid, sl')" with a show ?thesis by simp
    next
      assume "it \<in> set (slots r)"
      with old [of "fst it" "snd it"] up show ?thesis by simp
    qed
  qed
  show ?thesis
  proof (cases "map_of (slots r) fid")
    case None
    with ra have r': "r' = r\<lparr>slots := AList.update fid
         (inc_record_nums (push_front c (new_Slot (slot_evictable_default r)))) (slots r),
         curr_size := curr_size r + 1, current_timestamp := c + 1\<rparr>"
      by (auto simp: RecordAccess_def c_def split: if_splits)
    show ?thesis unfolding r'
      by (rule new) (use k cc in \<open>simp add: inc_record_nums_def push_front_def new_Slot_def\<close>)
  next
    case (Some sl)
    then have mem: "(fid, sl) \<in> set (slots r)" by (rule map_of_SomeD)
    note o = old [OF mem]
    have sorted: "sorted_wrt (\<lambda>s t. t < s) (c # records sl)" using o by simp
    show ?thesis
    proof (cases "record_nums sl = replacer_k r")
      case True
      with ra Some have r': "r' = r\<lparr>slots := AList.update fid
           (pop_back (push_front c sl)) (slots r), curr_size := curr_size r,
           current_timestamp := c + 1\<rparr>"
        by (simp add: RecordAccess_def c_def)
      have "sorted_wrt (\<lambda>s t. t < s) (butlast (c # records sl))"
        using sorted_wrt_take [OF sorted, of "length (records sl)"] by (simp add: butlast_conv_take)
      moreover have "\<forall>t \<in> set (butlast (c # records sl)). t < c + 1"
        using o cc up by (auto dest!: in_set_butlastD)
      moreover have "1 \<le> unat (record_nums sl)"
        using k True by (simp add: word_le_nat_alt)
      moreover from this o have "records sl \<noteq> []" by auto
      ultimately show ?thesis unfolding r'
        using o by (intro new) (simp add: pop_back_def push_front_def)
    next
      case False
      with ra Some have r': "r' = r\<lparr>slots := AList.update fid
           (inc_record_nums (push_front c sl)) (slots r), curr_size := curr_size r,
           current_timestamp := c + 1\<rparr>"
        by (simp add: RecordAccess_def c_def)
      from False o have lt: "record_nums sl < replacer_k r" by auto
      then have "record_nums sl + 1 \<le> replacer_k r" by (rule inc_le)
      moreover have "unat (record_nums sl + 1) = Suc (unat (record_nums sl))"
        using lt by (rule unat_succ)
      ultimately show ?thesis unfolding r'
        using o cc up by (intro new) (auto simp: inc_record_nums_def push_front_def)
    qed
  qed
qed

lemma histories_wf_SetEvictable:
  assumes "histories_wf r" and "SetEvictable fid e r = Inr r'"
  shows "histories_wf r'"
proof -
  from assms(2) obtain sl where sl: "map_of (slots r) fid = Some sl"
    and s: "slots r' = AList.update fid (sl\<lparr>evictable := e\<rparr>) (slots r)"
    and o: "replacer_k r' = replacer_k r" "current_timestamp r' = current_timestamp r"
    by (auto simp: SetEvictable_def Let_def split: option.splits)
  from sl have mem: "(fid, sl) \<in> set (slots r)" by (rule map_of_SomeD)
  show ?thesis
    unfolding histories_wf_def o s
  proof
    fix it assume "it \<in> set (AList.update fid (sl\<lparr>evictable := e\<rparr>) (slots r))"
    with set_update_subset [of fid "sl\<lparr>evictable := e\<rparr>" "slots r"]
    have "it = (fid, sl\<lparr>evictable := e\<rparr>) \<or> it \<in> set (slots r)" by auto
    with assms(1) mem show "length (records (snd it)) = unat (record_nums (snd it)) \<and>
        record_nums (snd it) \<le> replacer_k r \<and>
        sorted_wrt (\<lambda>s t. t < s) (records (snd it)) \<and>
        (\<forall>t \<in> set (records (snd it)). t < current_timestamp r)"
      by (auto simp: histories_wf_def)
  qed
qed

lemma histories_wf_delete:
  "histories_wf r \<Longrightarrow> histories_wf (r\<lparr>slots := AList.delete fid (slots r), curr_size := n\<rparr>)"
  using set_delete_subset [of fid "slots r"] by (auto simp: histories_wf_def)

lemma histories_wf_Evict:
  assumes "histories_wf r" and "Evict iter r = (res, r')"
  shows "histories_wf r'"
  using assms histories_wf_delete [of r]
  by (auto simp: Evict_def split: option.splits)

lemma histories_wf_Remove:
  assumes "histories_wf r" and "Remove fid r = Inr r'"
  shows "histories_wf r'"
proof (cases "map_of (slots r) fid")
  case None
  with assms show ?thesis by (simp add: Remove_def)
next
  case (Some sl)
  with assms(2) have "r' = r\<lparr>curr_size := curr_size r - 1, slots := AList.delete fid (slots r)\<rparr>"
    by (simp add: Remove_def split: if_splits)
  then have "r' = r\<lparr>slots := AList.delete fid (slots r), curr_size := curr_size r - 1\<rparr>" by simp
  with histories_wf_delete [OF assms(1)] show ?thesis by simp
qed

text \<open>With \<open>k \<ge> 2\<close> such a history of \<open>k\<close> timestamps has a span that is not zero.\<close>

lemma histories_span:
  assumes "histories_wf r" and "2 \<le> replacer_k r" and "(f, sl) \<in> set (slots r)"
    and "replacer_k r \<le> record_nums sl"
  shows "0 < span sl"
proof -
  from assms(1,3) have len: "length (records sl) = unat (record_nums sl)"
    and srt: "sorted_wrt (\<lambda>s t. t < s) (records sl)"
    by (auto simp: histories_wf_def)
  from assms(2,4) have "2 \<le> record_nums sl" by simp
  then have "2 \<le> unat (record_nums sl)" by (simp add: word_le_nat_alt)
  with len obtain a b rest where recs: "records sl = a # b # rest"
    by (cases "records sl"; cases "tl (records sl)") auto
  then have "last (records sl) \<in> set (b # rest)" by (metis last_ConsR last_in_set list.distinct(1))
  with srt recs have "last (records sl) < hd (records sl)" by auto
  then show ?thesis by (simp add: span_def word_gt_0)
qed

text \<open>
  Claim C3, as amended, for \<open>k \<ge> 2\<close>. The candidates are the evictable slots with a
  recorded access; \<open>k\<close> is at most \<open>LONG_MAX\<close>, the initial value of the loop's
  minimum; the histories are as \<open>RecordAccess\<close> builds them; the iteration order of
  the container is arbitrary. When there is a candidate, \<open>Evict\<close> returns a victim,
  erases its slot and decrements \<open>curr_size\<close>; the victim is a candidate. When some
  candidate has fewer than \<open>k\<close> accesses the victim has fewer than \<open>k\<close> accesses
  too: it has the fewest accesses of all candidates, and among those with as few its most
  recent timestamp is the smallest. When every candidate has \<open>k\<close> accesses the victim is
  one whose most recent timestamp minus its \<open>k\<close>-th most recent timestamp is largest.
  When there is no candidate, \<open>Evict\<close> returns no frame and changes nothing.
\<close>

theorem Evict_victim:
  assumes "iteration_order iter" and "replacer_k r \<le> LONG_MAX" and "2 \<le> replacer_k r"
    and "histories_wf r"
  shows "if candidates (slots r) = [] then Evict iter r = (None, r)
     else (\<exists>fid vs.
       Evict iter r =
         (Some fid, r\<lparr>slots := AList.delete fid (slots r), curr_size := curr_size r - 1\<rparr>) \<and>
       (fid, vs) \<in> set (slots r) \<and> evictable vs \<and> record_nums vs \<noteq> 0 \<and>
       (if some_infinite (replacer_k r) (candidates (slots r))
        then record_nums vs < replacer_k r \<and> fewest_then_oldest (candidates (slots r)) vs
        else largest_span (candidates (slots r)) vs))"
proof -
  let ?xs = "iter (slots r)"
  note inv = evict_inv_scan [OF assms(2), of ?xs]
  note cs = iteration_order_candidates [OF assms(1), of "slots r"]
  have inf: "some_infinite (replacer_k r) (candidates ?xs) =
      some_infinite (replacer_k r) (candidates (slots r))"
    by (simp add: some_infinite_def cs)
  show ?thesis
  proof (cases "result (evict_scan (replacer_k r) ?xs)")
    case None
    have "candidates (slots r) = []"
    proof (rule ccontr)
      assume "candidates (slots r) \<noteq> []"
      then obtain sl where sl: "sl \<in> set (candidates (slots r))" by (cases "candidates (slots r)") auto
      then obtain f where f: "(f, sl) \<in> set (slots r)" by (auto simp: candidates_set)
      from sl cs have "sl \<in> set (candidates ?xs)" by simp
      with inv None have "replacer_k r \<le> record_nums sl" "span sl = 0"
        by (simp_all add: evict_inv_None)
      with histories_span [OF assms(4,3) f] show False by simp
    qed
    with None show ?thesis by (simp add: Evict_def)
  next
    case (Some w)
    have E: "Evict iter r =
        (Some w, r\<lparr>slots := AList.delete w (slots r), curr_size := curr_size r - 1\<rparr>)"
      using Some by (simp add: Evict_def)
    have "\<exists>ws. (w, ws) \<in> set (slots r) \<and> evictable ws \<and> record_nums ws \<noteq> 0 \<and>
       (if some_infinite (replacer_k r) (candidates (slots r))
        then record_nums ws < replacer_k r \<and> fewest_then_oldest (candidates (slots r)) ws
        else largest_span (candidates (slots r)) ws)"
    proof (cases "some_infinite (replacer_k r) (candidates (slots r))")
      case True
      with inf have "some_infinite (replacer_k r) (candidates ?xs)" by simp
      from evict_inv_inf_D [OF inv Some this] obtain ws where
        "(w, ws) \<in> set ?xs" "evictable ws" "record_nums ws \<noteq> 0"
        "record_nums ws < replacer_k r" "fewest_then_oldest (candidates ?xs) ws" by blast
      then have "(w, ws) \<in> set (slots r) \<and> evictable ws \<and> record_nums ws \<noteq> 0 \<and>
          record_nums ws < replacer_k r \<and> fewest_then_oldest (candidates (slots r)) ws"
        by (simp add: iteration_order_set [OF assms(1)] fewest_then_oldest_def cs)
      with True show ?thesis by auto
    next
      case False
      with inf have "\<not> some_infinite (replacer_k r) (candidates ?xs)" by simp
      from evict_inv_fin_D [OF inv Some this] obtain ws where
        "(w, ws) \<in> set ?xs" "evictable ws" "record_nums ws \<noteq> 0"
        "widest_span (candidates ?xs) ws" by blast
      then have "(w, ws) \<in> set (slots r) \<and> evictable ws \<and> record_nums ws \<noteq> 0 \<and>
          largest_span (candidates (slots r)) ws"
        by (simp add: iteration_order_set [OF assms(1)] widest_span_def largest_span_def cs)
      with False show ?thesis by auto
    qed
    then obtain ws where ws: "(w, ws) \<in> set (slots r)" "evictable ws" "record_nums ws \<noteq> 0"
      "if some_infinite (replacer_k r) (candidates (slots r))
        then record_nums ws < replacer_k r \<and> fewest_then_oldest (candidates (slots r)) ws
        else largest_span (candidates (slots r)) ws" by blast
    then have "ws \<in> set (candidates (slots r))" by (force simp: candidates_set)
    then have ne: "candidates (slots r) \<noteq> []" by auto
    show ?thesis unfolding E using ne ws by (simp only: if_False) blast
  qed
qed

lemma Evict_infinite_example:
  "fst (Evict key_order (evict_infinite_example e)) = Some 2"
  "fst (Evict reverse_key_order (evict_infinite_example e)) = Some 2"
  by (simp_all add: Evict_def evict_infinite_example_def evict_scan_def evict_step_def
      evict_init_def LONG_MAX_def key_order_def reverse_key_order_def)

lemma Evict_finite_example:
  "fst (Evict key_order (evict_finite_example e)) = Some 2"
  "fst (Evict reverse_key_order (evict_finite_example e)) = Some 2"
  by (simp_all add: Evict_def evict_finite_example_def evict_scan_def evict_step_def
      evict_init_def LONG_MAX_def key_order_def reverse_key_order_def)

lemma evict_examples_run:
  "replacer_run key_order evict_infinite_calls (new_LRUKReplacer e 7 3) =
     Inr (evict_infinite_example e)"
  "replacer_run key_order evict_finite_calls (new_LRUKReplacer e 7 2) =
     Inr (evict_finite_example e)"
  by (cases e; simp add: evict_infinite_calls_def evict_finite_calls_def new_LRUKReplacer_def
      evict_infinite_example_def evict_finite_example_def RecordAccess_def SetEvictable_def
      new_Slot_def push_front_def pop_back_def inc_record_nums_def)+

theorem Evict_victim_witness:
  "iteration_order key_order \<and>
   replacer_run key_order evict_infinite_calls (new_LRUKReplacer True 7 3) =
     Inr (evict_infinite_example True) \<and>
   replacer_k (evict_infinite_example True) \<le> LONG_MAX \<and>
   2 \<le> replacer_k (evict_infinite_example True) \<and>
   histories_wf (evict_infinite_example True) \<and>
   candidates (slots (evict_infinite_example True)) \<noteq> [] \<and>
   some_infinite (replacer_k (evict_infinite_example True))
     (candidates (slots (evict_infinite_example True))) \<and>
   (\<exists>r' vs. Evict key_order (evict_infinite_example True) = (Some 2, r') \<and>
      (2, vs) \<in> set (slots (evict_infinite_example True)) \<and>
      record_nums vs < replacer_k (evict_infinite_example True) \<and>
      fewest_then_oldest (candidates (slots (evict_infinite_example True))) vs) \<and>
   replacer_run key_order evict_finite_calls (new_LRUKReplacer True 7 2) =
     Inr (evict_finite_example True) \<and>
   replacer_k (evict_finite_example True) \<le> LONG_MAX \<and>
   2 \<le> replacer_k (evict_finite_example True) \<and>
   histories_wf (evict_finite_example True) \<and>
   candidates (slots (evict_finite_example True)) \<noteq> [] \<and>
   \<not> some_infinite (replacer_k (evict_finite_example True))
     (candidates (slots (evict_finite_example True))) \<and>
   (\<exists>r' vs. Evict key_order (evict_finite_example True) = (Some 2, r') \<and>
      (2, vs) \<in> set (slots (evict_finite_example True)) \<and>
      largest_span (candidates (slots (evict_finite_example True))) vs)"
proof -
  have k: "replacer_k (evict_infinite_example True) \<le> LONG_MAX"
    "2 \<le> replacer_k (evict_infinite_example True)"
    by (simp_all add: evict_infinite_example_def LONG_MAX_def)
  have h: "histories_wf (evict_infinite_example True)"
    by (simp add: evict_infinite_example_def histories_wf_def)
  have c: "candidates (slots (evict_infinite_example True)) \<noteq> []"
    by (simp add: evict_infinite_example_def candidates_def)
  have i: "some_infinite (replacer_k (evict_infinite_example True))
     (candidates (slots (evict_infinite_example True)))"
    by (simp add: evict_infinite_example_def some_infinite_def candidates_def)
  note v = Evict_victim [OF iteration_order_key_order k h]
  from v c i Evict_infinite_example(1) [of True] have A:
    "\<exists>r' vs. Evict key_order (evict_infinite_example True) = (Some 2, r') \<and>
      (2, vs) \<in> set (slots (evict_infinite_example True)) \<and>
      record_nums vs < replacer_k (evict_infinite_example True) \<and>
      fewest_then_oldest (candidates (slots (evict_infinite_example True))) vs"
    by auto
  have k': "replacer_k (evict_finite_example True) \<le> LONG_MAX"
    "2 \<le> replacer_k (evict_finite_example True)"
    by (simp_all add: evict_finite_example_def LONG_MAX_def)
  have h': "histories_wf (evict_finite_example True)"
    by (simp add: evict_finite_example_def histories_wf_def)
  have c': "candidates (slots (evict_finite_example True)) \<noteq> []"
    by (simp add: evict_finite_example_def candidates_def)
  have i': "\<not> some_infinite (replacer_k (evict_finite_example True))
     (candidates (slots (evict_finite_example True)))"
    by (simp add: evict_finite_example_def some_infinite_def candidates_def)
  note v' = Evict_victim [OF iteration_order_key_order k' h']
  from v' c' i' Evict_finite_example(1) [of True] have B:
    "\<exists>r' vs. Evict key_order (evict_finite_example True) = (Some 2, r') \<and>
      (2, vs) \<in> set (slots (evict_finite_example True)) \<and>
      largest_span (candidates (slots (evict_finite_example True))) vs"
    by auto
  show ?thesis
    by (intro conjI iteration_order_key_order evict_examples_run k h c i A k' h' c' i' B)
qed

text \<open>
  The claim as stated fails. With \<open>k = 3\<close>, frame 1 accessed at times 0 and 1 and
  frame 2 at time 2, both have fewer than \<open>k\<close> accesses and frame 1 has the earliest
  first access, yet the victim is frame 2. With \<open>k = 2\<close> and the histories
  \<open>[1, 0]\<close>, \<open>[5, 2]\<close>, \<open>[4, 3]\<close> of frames 1, 2, 3, frame 1 has the smallest
  \<open>k\<close>-th most recent timestamp, yet the victim is frame 2. Both hold in either
  iteration order of the examples (and, by the theorem, in every order: the victim of the
  first example is the one candidate with the fewest accesses, that of the second the one
  with the largest span).
\<close>

theorem Evict_claim_counterexample:
  "replacer_run key_order evict_infinite_calls (new_LRUKReplacer True 7 3) =
     Inr (evict_infinite_example True) \<and>
   replacer_run key_order evict_infinite_calls (new_LRUKReplacer False 7 3) =
     Inr (evict_infinite_example False) \<and>
   fst (Evict key_order (evict_infinite_example True)) = Some 2 \<and>
   fst (Evict key_order (evict_infinite_example False)) = Some 2 \<and>
   fst (Evict reverse_key_order (evict_infinite_example True)) = Some 2 \<and>
   fst (Evict reverse_key_order (evict_infinite_example False)) = Some 2 \<and>
   replacer_run key_order evict_finite_calls (new_LRUKReplacer True 7 2) =
     Inr (evict_finite_example True) \<and>
   replacer_run key_order evict_finite_calls (new_LRUKReplacer False 7 2) =
     Inr (evict_finite_example False) \<and>
   fst (Evict key_order (evict_finite_example True)) = Some 2 \<and>
   fst (Evict key_order (evict_finite_example False)) = Some 2 \<and>
   fst (Evict reverse_key_order (evict_finite_example True)) = Some 2 \<and>
   fst (Evict reverse_key_order (evict_finite_example False)) = Some 2"
  by (intro conjI evict_examples_run Evict_infinite_example Evict_finite_example)

subsection \<open>Size and the number of evictable slots\<close>

lemma cnt_update_present:
  "map_of xs f = Some sl \<Longrightarrow>
   cnt (AList.update f sl' xs) + (if evictable sl then 1 else 0) =
   cnt xs + (if evictable sl' then 1 else 0)"
  by (induction xs) (auto simp: cnt_def)

lemma cnt_update_absent:
  "map_of xs f = None \<Longrightarrow>
   cnt (AList.update f sl' xs) = cnt xs + (if evictable sl' then 1 else 0)"
  by (induction xs) (auto simp: cnt_def)

lemma cnt_delete:
  "distinct (map fst xs) \<Longrightarrow> map_of xs f = Some sl \<Longrightarrow>
   cnt (AList.delete f xs) + (if evictable sl then 1 else 0) = cnt xs"
  by (induction xs) (auto simp: cnt_def AList.delete_id image_iff map_of_eq_None_iff [symmetric] split: if_splits)

lemma evict_step_result:
  "result (evict_step k v it) = Some w \<Longrightarrow>
   result v = Some w \<or> (w = fst it \<and> evictable (snd it) \<and> record_nums (snd it) \<noteq> 0)"
  by (auto simp: evict_step_def Let_def split: if_splits)

lemma foldl_evict_result:
  "result (foldl (evict_step k) v xs) = Some w \<Longrightarrow>
   result v = Some w \<or> (\<exists>sl. (w, sl) \<in> set xs \<and> evictable sl \<and> record_nums sl \<noteq> 0)"
proof (induction xs arbitrary: v)
  case Nil
  then show ?case by simp
next
  case (Cons x xs)
  from Cons.IH [of "evict_step k v x"] Cons.prems
  have "result (evict_step k v x) = Some w \<or>
        (\<exists>sl. (w, sl) \<in> set xs \<and> evictable sl \<and> record_nums sl \<noteq> 0)"
    by simp
  then show ?case
  proof
    assume "result (evict_step k v x) = Some w"
    from evict_step_result [OF this] show ?thesis
      by (cases x) auto
  next
    assume "\<exists>sl. (w, sl) \<in> set xs \<and> evictable sl \<and> record_nums sl \<noteq> 0"
    then show ?thesis by auto
  qed
qed

lemma evict_scan_result:
  "result (evict_scan k xs) = Some w \<Longrightarrow> \<exists>sl. (w, sl) \<in> set xs \<and> evictable sl \<and> record_nums sl \<noteq> 0"
  using foldl_evict_result [of k evict_init xs w] by (simp add: evict_scan_def evict_init_def)

lemma reachable_distinct: "replacer_reachable iter r \<Longrightarrow> distinct (map fst (slots r))"
proof (induction rule: replacer_reachable.induct)
  case (reach_new e num_frames k)
  then show ?case by (simp add: new_LRUKReplacer_def)
next
  case (reach_RecordAccess r fid r')
  then show ?case
    by (auto simp: RecordAccess_def AList.distinct_update split: option.splits if_splits)
next
  case (reach_SetEvictable r fid e r')
  then show ?case
    by (auto simp: SetEvictable_def Let_def AList.distinct_update split: option.splits)
next
  case (reach_Evict r res r')
  then show ?case
    by (auto simp: Evict_def AList.distinct_delete split: option.splits)
next
  case (reach_Remove r fid r')
  then show ?case
    by (auto simp: Remove_def AList.distinct_delete split: option.splits if_splits)
qed

lemma RecordAccess_count:
  assumes "RecordAccess fid r = Inr r'"
  shows "if map_of (slots r) fid = None
         then Size r' = Size r + 1 \<and>
              evictable_count r' = evictable_count r + (if slot_evictable_default r then 1 else 0)
         else Size r' = Size r \<and> evictable_count r' = evictable_count r"
proof (cases "map_of (slots r) fid")
  case None
  with assms show ?thesis
    using cnt_update_absent [OF None, of "inc_record_nums (push_front (current_timestamp r) (new_Slot (slot_evictable_default r)))"]
    by (auto simp: RecordAccess_def Size_def evictable_count_def inc_record_nums_def
        push_front_def new_Slot_def split: if_splits)
next
  case (Some sl)
  with assms show ?thesis
    using cnt_update_present [OF Some, of "pop_back (push_front (current_timestamp r) sl)"]
      cnt_update_present [OF Some, of "inc_record_nums (push_front (current_timestamp r) sl)"]
    by (auto simp: RecordAccess_def Size_def evictable_count_def inc_record_nums_def
        push_front_def pop_back_def split: if_splits)
qed

lemma SetEvictable_count:
  assumes "SetEvictable fid e r = Inr r'"
  shows "\<exists>sl. map_of (slots r) fid = Some sl \<and>
           (if evictable sl = e then Size r' = Size r \<and> evictable_count r' = evictable_count r
            else if e then Size r' = Size r + 1 \<and> evictable_count r' = evictable_count r + 1
            else Size r' = Size r - 1 \<and> evictable_count r' + 1 = evictable_count r)"
proof (cases "map_of (slots r) fid")
  case None
  with assms show ?thesis by (simp add: SetEvictable_def)
next
  case (Some sl)
  with assms show ?thesis
    using cnt_update_present [OF Some, of "sl\<lparr>evictable := e\<rparr>"]
    by (auto simp: SetEvictable_def Let_def Size_def evictable_count_def split: if_splits)
qed

lemma Evict_count:
  assumes "iteration_order iter" and "distinct (map fst (slots r))"
    and "Evict iter r = (res, r')"
  shows "case res of
           None \<Rightarrow> r' = r
         | Some fid \<Rightarrow> Size r' = Size r - 1 \<and> evictable_count r' + 1 = evictable_count r"
proof (cases "result (evict_scan (replacer_k r) (iter (slots r)))")
  case None
  with assms show ?thesis by (simp add: Evict_def)
next
  case (Some w)
  from evict_scan_result [OF Some] obtain sl where sl: "(w, sl) \<in> set (slots r)" "evictable sl"
    by (auto simp: iteration_order_set [OF assms(1)])
  with assms(2) have m: "map_of (slots r) w = Some sl" by simp
  from cnt_delete [OF assms(2) m] sl(2) assms(3) show ?thesis
    by (auto simp: Evict_def Size_def evictable_count_def Some)
qed

lemma Remove_count:
  assumes "distinct (map fst (slots r))" and "Remove fid r = Inr r'"
  shows "if map_of (slots r) fid = None then r' = r
         else Size r' = Size r - 1 \<and> evictable_count r' + 1 = evictable_count r"
proof (cases "map_of (slots r) fid")
  case None
  with assms show ?thesis by (simp add: Remove_def)
next
  case (Some sl)
  with assms cnt_delete [OF assms(1) Some] show ?thesis
    by (auto simp: Remove_def Size_def evictable_count_def split: if_splits)
qed

lemma word_pred: "(n::nat) + 1 = m \<Longrightarrow> (of_nat m :: size_t) - 1 = of_nat n"
  by auto

lemma word_succ: "(of_nat n :: size_t) + 1 = of_nat (n + 1)"
  by simp

lemma Size_invariant:
  assumes io: "iteration_order iter"
  shows "replacer_reachable iter r \<Longrightarrow> slot_evictable_default r \<Longrightarrow>
    Size r = of_nat (evictable_count r)"
proof (induction rule: replacer_reachable.induct)
  case (reach_new e num_frames k)
  then show ?case by (simp add: new_LRUKReplacer_def Size_def evictable_count_def cnt_def)
next
  case (reach_RecordAccess r fid r')
  have d: "slot_evictable_default r' = slot_evictable_default r"
    using reach_RecordAccess.hyps(2) by (auto simp: RecordAccess_def split: option.splits if_splits)
  with reach_RecordAccess have IH: "Size r = of_nat (evictable_count r)" and e: "slot_evictable_default r"
    by simp_all
  from RecordAccess_count [OF reach_RecordAccess.hyps(2)] e IH show ?case
    by (cases "map_of (slots r) fid = None") simp_all
next
  case (reach_SetEvictable r fid e r')
  have d: "slot_evictable_default r' = slot_evictable_default r"
    using reach_SetEvictable.hyps(2) by (auto simp: SetEvictable_def Let_def split: option.splits)
  from SetEvictable_count [OF reach_SetEvictable.hyps(2)] obtain sl :: Slot where
    sl: "if evictable sl = e then Size r' = Size r \<and> evictable_count r' = evictable_count r
            else if e then Size r' = Size r + 1 \<and> evictable_count r' = evictable_count r + 1
            else Size r' = Size r - 1 \<and> evictable_count r' + 1 = evictable_count r" by blast
  have IH: "Size r = of_nat (evictable_count r)" using reach_SetEvictable d by simp
  show ?case
  proof (cases "evictable sl = e")
    case True
    with sl IH show ?thesis by simp
  next
    case False
    show ?thesis
    proof (cases e)
      case True
      with False sl IH show ?thesis by simp
    next
      case e: False
      with False sl have "Size r' = Size r - 1" "evictable_count r' + 1 = evictable_count r"
        by simp_all
      with IH word_pred [of "evictable_count r'" "evictable_count r"] show ?thesis by simp
    qed
  qed
next
  case (reach_Evict r res r')
  have d: "slot_evictable_default r' = slot_evictable_default r"
    using reach_Evict.hyps(2) by (auto simp: Evict_def split: option.splits)
  have IH: "Size r = of_nat (evictable_count r)" using reach_Evict d by simp
  note c = Evict_count [OF io reachable_distinct [OF reach_Evict.hyps(1)] reach_Evict.hyps(2)]
  show ?case
  proof (cases res)
    case None
    with c IH show ?thesis by simp
  next
    case (Some fid)
    with c have "Size r' = Size r - 1" "evictable_count r' + 1 = evictable_count r"
      by simp_all
    with IH word_pred [of "evictable_count r'" "evictable_count r"] show ?thesis by simp
  qed
next
  case (reach_Remove r fid r')
  have d: "slot_evictable_default r' = slot_evictable_default r"
    using reach_Remove.hyps(2) by (auto simp: Remove_def split: option.splits if_splits)
  have IH: "Size r = of_nat (evictable_count r)" using reach_Remove d by simp
  note c = Remove_count [OF reachable_distinct [OF reach_Remove.hyps(1)] reach_Remove.hyps(2)]
  show ?case
  proof (cases "map_of (slots r) fid = None")
    case True
    with c IH show ?thesis by simp
  next
    case False
    with c have "Size r' = Size r - 1" "evictable_count r' + 1 = evictable_count r"
      by simp_all
    with IH word_pred [of "evictable_count r'" "evictable_count r"] show ?thesis by simp
  qed
qed


text \<open>
  Claim C6, as amended. In every reachable state, whatever the iteration order of the
  container: \<open>RecordAccess\<close> on a frame that has
  a slot changes neither \<open>Size()\<close> nor the number of evictable slots, and on a frame
  without a slot it creates the slot and increments \<open>Size()\<close>; \<open>SetEvictable\<close>
  changes both by exactly one on an actual toggle and not otherwise; \<open>Evict\<close> and
  \<open>Remove\<close> decrement both when they erase a slot. So \<open>Size()\<close> is the number of
  evictable slots in every reachable state of a replacer whose new slots are evictable.
\<close>

theorem Size_counts_evictable:
  assumes "iteration_order iter" and "replacer_reachable iter r"
  shows "(slot_evictable_default r \<longrightarrow> Size r = of_nat (evictable_count r)) \<and>
    (\<forall>fid r'. RecordAccess fid r = Inr r' \<longrightarrow>
       (if map_of (slots r) fid = None
        then Size r' = Size r + 1 \<and>
             evictable_count r' = evictable_count r + (if slot_evictable_default r then 1 else 0)
        else Size r' = Size r \<and> evictable_count r' = evictable_count r)) \<and>
    (\<forall>fid e r'. SetEvictable fid e r = Inr r' \<longrightarrow>
       (\<exists>sl. map_of (slots r) fid = Some sl \<and>
          (if evictable sl = e then Size r' = Size r \<and> evictable_count r' = evictable_count r
           else if e then Size r' = Size r + 1 \<and> evictable_count r' = evictable_count r + 1
           else Size r' = Size r - 1 \<and> evictable_count r' + 1 = evictable_count r))) \<and>
    (\<forall>res r'. Evict iter r = (res, r') \<longrightarrow>
       (case res of
          None \<Rightarrow> r' = r
        | Some fid \<Rightarrow> Size r' = Size r - 1 \<and> evictable_count r' + 1 = evictable_count r)) \<and>
    (\<forall>fid r'. Remove fid r = Inr r' \<longrightarrow>
       (if map_of (slots r) fid = None then r' = r
        else Size r' = Size r - 1 \<and> evictable_count r' + 1 = evictable_count r))"
  using Size_invariant [OF assms] RecordAccess_count SetEvictable_count
    Evict_count [OF assms(1) reachable_distinct [OF assms(2)]]
    Remove_count [OF reachable_distinct [OF assms(2)]]
  by blast

lemma RecordAccess_first: "RecordAccess 1 (new_LRUKReplacer e 7 2) = Inr (first_access_example e)"
  by (simp add: RecordAccess_def new_LRUKReplacer_def first_access_example_def new_Slot_def
      push_front_def inc_record_nums_def)

theorem Size_counts_evictable_witness:
  "iteration_order key_order \<and>
   replacer_reachable key_order (first_access_example True) \<and>
   slot_evictable_default (first_access_example True) \<and>
   Size (first_access_example True) = of_nat (evictable_count (first_access_example True)) \<and>
   (\<exists>r'. SetEvictable 1 False (first_access_example True) = Inr r' \<and>
         Size r' = Size (first_access_example True) - 1 \<and>
         evictable_count r' + 1 = evictable_count (first_access_example True))"
proof -
  note io = iteration_order_key_order
  have r: "replacer_reachable key_order (first_access_example True)"
    using reach_RecordAccess [OF reach_new RecordAccess_first] .
  have d: "slot_evictable_default (first_access_example True)"
    by (simp add: first_access_example_def)
  obtain r' where s: "SetEvictable 1 False (first_access_example True) = Inr r'"
    by (simp add: SetEvictable_def first_access_example_def)
  have m: "map_of (slots (first_access_example True)) 1 =
           Some \<lparr>records = [0], record_nums = 1, evictable = True\<rparr>"
    by (simp add: first_access_example_def)
  from Size_counts_evictable [OF io r] d
  have A: "Size (first_access_example True) = of_nat (evictable_count (first_access_example True))"
    by blast
  from Size_counts_evictable [OF io r] s
  have "\<exists>sl. map_of (slots (first_access_example True)) 1 = Some sl \<and>
          (if evictable sl = False
           then Size r' = Size (first_access_example True) \<and>
                evictable_count r' = evictable_count (first_access_example True)
           else if False
                then Size r' = Size (first_access_example True) + 1 \<and>
                     evictable_count r' = evictable_count (first_access_example True) + 1
                else Size r' = Size (first_access_example True) - 1 \<and>
                     evictable_count r' + 1 = evictable_count (first_access_example True))"
    by blast
  with m have B: "Size r' = Size (first_access_example True) - 1 \<and>
      evictable_count r' + 1 = evictable_count (first_access_example True)"
    by simp
  from io r d A s B show ?thesis by blast
qed

text \<open>
  The claim as stated fails at the first access to a frame, whichever value a new slot's
  flag has: when new slots are not evictable \<open>Size()\<close> is 1 with no evictable slot, and
  when they are evictable \<open>RecordAccess\<close> has changed the number of evictable slots.
\<close>

theorem Size_claim_counterexample:
  "RecordAccess 1 (new_LRUKReplacer False 7 2) = Inr (first_access_example False) \<and>
   Size (first_access_example False) = 1 \<and>
   evictable_count (first_access_example False) = 0 \<and>
   RecordAccess 1 (new_LRUKReplacer True 7 2) = Inr (first_access_example True) \<and>
   evictable_count (new_LRUKReplacer True 7 2) = 0 \<and>
   evictable_count (first_access_example True) = 1"
  using RecordAccess_first
  by (simp add: Size_def evictable_count_def cnt_def first_access_example_def new_LRUKReplacer_def)

subsection \<open>The shape of the hash table\<close>

lemma Insert_retry_Some:
  "Insert_retry hash key t = Some t' \<Longrightarrow> Insert hash key val t = Insert hash key val t'"
  by (subst Insert.simps)
     (auto simp: Insert_retry_def Let_def split: option.splits if_splits)

lemma Insert_retry_None:
  "Insert_retry hash key t = None \<Longrightarrow> Insert hash key val t = Some (Insert_final hash key val t)"
  by (subst Insert.simps)
     (auto simp: Insert_retry_def Insert_final_def Let_def split: option.splits if_splits)

text \<open>Induction over the retries of a call of \<open>Insert\<close> that returns.\<close>

lemma Insert_retry_induct:
  assumes ret: "Insert hash key val t = Some y"
    and base: "\<And>t. Insert_retry hash key t = None \<Longrightarrow> P t (Insert_final hash key val t)"
    and step: "\<And>t t' y. Insert_retry hash key t = Some t' \<Longrightarrow> P t' y \<Longrightarrow> P t y"
  shows "P t y"
proof -
  have "hash = hash \<longrightarrow> key = key \<longrightarrow> val = val \<longrightarrow> P t y"
    apply (rule Insert.raw_induct
        [where P = "\<lambda>h k v t y. h = hash \<longrightarrow> k = key \<longrightarrow> v = val \<longrightarrow> P t y", OF _ ret])
    subgoal premises prems for I h k v t y
    proof (intro impI)
      assume eq: "h = hash" "k = key" "v = val"
      show "P t y"
      proof (cases "Insert_retry hash key t")
        case None
        with prems(2) eq have "y = Insert_final hash key val t"
          by (auto simp: Insert_retry_def Insert_final_def Let_def split: option.splits if_splits)
        with base [OF None] show ?thesis by simp
      next
        case (Some t')
        with prems(2) eq have "I hash key val t' = Some y"
          by (auto simp: Insert_retry_def Let_def split: option.splits if_splits)
        from prems(1) [OF this] have "P t' y" by simp
        from step [OF Some this] show ?thesis .
      qed
    qed
    done
  then show ?thesis by simp
qed

lemma IndexOf_less: "wf_table t \<Longrightarrow> IndexOf hash t key < length (dir t)"
  by (simp add: wf_table_def IndexOf_def)

lemma wf_table_nth:
  "wf_table t \<Longrightarrow> i < length (dir t) \<Longrightarrow>
   dir t ! i < length (heap t) \<and> depth (heap t ! (dir t ! i)) \<le> global_depth t"
  by (simp add: wf_table_def)

lemma map_depth_update:
  "depth b = depth (h ! a) \<Longrightarrow> map depth (h[a := b]) = map depth h"
  by (cases "a < length h") (simp_all add: map_update list_update_same_conv list_update_beyond)

lemma depth_Bucket_Insert [simp]: "depth (snd (Bucket_Insert key val b)) = depth b"
  by (simp add: Bucket_Insert_def)

lemma depth_Bucket_Remove [simp]: "depth (snd (Bucket_Remove key b)) = depth b"
  by (simp add: Bucket_Remove_def split: option.splits)

lemma wf_table_cong:
  assumes "dir t' = dir t" and "global_depth t' = global_depth t"
    and "map depth (heap t') = map depth (heap t)"
  shows "wf_table t' = wf_table t"
proof -
  from assms(3) have len: "length (heap t') = length (heap t)"
    by (metis length_map)
  have "depth (heap t' ! a) = depth (heap t ! a)" if "a < length (heap t)" for a
    using that assms(3) len by (metis nth_map)
  with assms(1,2) len show ?thesis
    unfolding wf_table_def by auto
qed

lemma redistribute_loop_shape:
  "dir (redistribute_loop hash bucket its t) = dir t \<and>
   global_depth (redistribute_loop hash bucket its t) = global_depth t \<and>
   bucket_size (redistribute_loop hash bucket its t) = bucket_size t \<and>
   num_buckets (redistribute_loop hash bucket its t) = num_buckets t \<and>
   map depth (heap (redistribute_loop hash bucket its t)) = map depth (heap t)"
proof (induction its arbitrary: t)
  case Nil
  then show ?case by simp
next
  case (Cons it its)
  show ?case
  proof (cases "dir t ! IndexOf hash t (fst it) \<noteq> bucket")
    case True
    let ?b = "dir t ! IndexOf hash t (fst it)"
    let ?h1 = "(heap t)[?b := snd (Bucket_Insert (fst it) (snd it) (heap t ! ?b))]"
    let ?h2 = "?h1[bucket := snd (Bucket_Remove (fst it) (?h1 ! bucket))]"
    have "map depth ?h2 = map depth (heap t)"
      by (simp add: map_depth_update)
    with Cons.IH [of "t\<lparr>heap := ?h2\<rparr>"] True show ?thesis
      by (simp add: Let_def)
  next
    case False
    with Cons.IH [of t] show ?thesis by simp
  qed
qed

lemma wf_RedistributeBucket: "wf_table t \<Longrightarrow> wf_table (RedistributeBucket hash bucket t)"
  using redistribute_loop_shape [of hash bucket "items (heap t ! bucket)" t]
    wf_table_cong [of "RedistributeBucket hash bucket t" t]
  by (simp add: RedistributeBucket_def)

lemma wf_IncrementDepth_at:
  assumes "wf_table t" and "depth (heap t ! a) < global_depth t"
  shows "wf_table (IncrementDepth_at a t)"
proof -
  have "depth ((heap t)[a := IncrementDepth (heap t ! a)] ! b) \<le> global_depth t"
    if "b \<in> set (dir t)" for b
  proof (cases "b = a")
    case True
    with that assms show ?thesis by (simp add: wf_table_def IncrementDepth_def)
  next
    case False
    with that assms(1) show ?thesis by (simp add: wf_table_def)
  qed
  with assms(1) show ?thesis by (simp add: wf_table_def IncrementDepth_at_def)
qed

lemma DoubleDir_wf_eq:
  assumes "wf_table t"
  shows "DoubleDir idx t =
     t\<lparr>dir := (dir t @ dir t)[idx + 2 ^ global_depth t := length (heap t)],
       heap := heap t @ [new_Bucket (bucket_size t) (global_depth t + 1)],
       num_buckets := num_buckets t + 1,
       global_depth := global_depth t + 1\<rparr>"
proof -
  have "map (\<lambda>i. dir t ! i) [0..<2 ^ global_depth t] = dir t"
    using assms map_nth [of "dir t"] by (simp add: wf_table_def)
  then show ?thesis by (simp add: DoubleDir_def Let_def)
qed

lemma wf_DoubleDir:
  assumes "wf_table t"
  shows "wf_table (DoubleDir idx t)"
proof -
  have "a < Suc (length (heap t)) \<and>
        depth ((heap t @ [new_Bucket (bucket_size t) (Suc (global_depth t))]) ! a)
          \<le> Suc (global_depth t)"
    if "a \<in> set ((dir t @ dir t)[idx + 2 ^ global_depth t := length (heap t)])" for a
  proof -
    from that set_update_subset_insert
    have "a = length (heap t) \<or> a \<in> set (dir t)" by fastforce
    then show ?thesis
    proof
      assume "a = length (heap t)"
      then show ?thesis by (simp add: new_Bucket_def)
    next
      assume "a \<in> set (dir t)"
      with assms have "a < length (heap t)" "depth (heap t ! a) \<le> global_depth t"
        by (simp_all add: wf_table_def)
      then show ?thesis by (simp add: nth_append)
    qed
  qed
  moreover have "length (dir t) = 2 ^ global_depth t" using assms by (simp add: wf_table_def)
  ultimately show ?thesis
    unfolding DoubleDir_wf_eq [OF assms] wf_table_def by simp
qed

lemma DoubleDir_nth_low:
  assumes "wf_table t" and "i < length (dir t)"
  shows "dir (DoubleDir idx t) ! i = dir t ! i"
    and "heap (DoubleDir idx t) ! (dir t ! i) = heap t ! (dir t ! i)"
proof -
  have len: "length (dir t) = 2 ^ global_depth t" using assms(1) by (simp add: wf_table_def)
  show "dir (DoubleDir idx t) ! i = dir t ! i"
    using assms(2) len by (simp add: DoubleDir_wf_eq [OF assms(1)] nth_list_update nth_append)
  show "heap (DoubleDir idx t) ! (dir t ! i) = heap t ! (dir t ! i)"
    using wf_table_nth [OF assms] by (simp add: DoubleDir_wf_eq [OF assms(1)] nth_append)
qed

lemma wf_split_double:
  assumes wf: "wf_table t" and idx: "idx < length (dir t)"
    and eq: "GetGlobalDepth t = GetLocalDepth t idx"
  shows "wf_table (split_double hash idx t)"
proof -
  let ?t1 = "DoubleDir idx t"
  have a: "dir ?t1 ! idx = dir t ! idx" and h: "heap ?t1 ! (dir t ! idx) = heap t ! (dir t ! idx)"
    using DoubleDir_nth_low [OF wf idx] by simp_all
  have g: "global_depth ?t1 = global_depth t + 1" by (simp add: DoubleDir_def Let_def)
  have "depth (heap ?t1 ! (dir ?t1 ! idx)) < global_depth ?t1"
    using eq by (simp add: a h g GetGlobalDepth_def GetLocalDepth_def)
  from wf_IncrementDepth_at [OF wf_DoubleDir [OF wf] this]
  show ?thesis by (simp add: split_double_def Let_def wf_RedistributeBucket)
qed

lemma wf_split_local:
  assumes wf: "wf_table t" and idx: "idx < length (dir t)"
    and ne: "GetGlobalDepth t \<noteq> GetLocalDepth t idx"
  shows "wf_table (split_local hash idx t)"
proof -
  let ?t1 = "IncrementDepth_at (dir t ! idx) t"
  let ?bptr = "length (heap ?t1)"
  let ?t2 = "?t1\<lparr>heap := heap ?t1 @ [new_Bucket (bucket_size ?t1) (global_depth ?t1)]\<rparr>"
  have "depth (heap t ! (dir t ! idx)) < global_depth t"
    using wf_table_nth [OF wf idx] ne by (simp add: GetGlobalDepth_def GetLocalDepth_def)
  from wf_IncrementDepth_at [OF wf this] have wf1: "wf_table ?t1" .
  have wf3: "wf_table (?t2\<lparr>dir := (dir ?t2)[i := ?bptr]\<rparr>)" for i
  proof -
    have "a < Suc (length (heap ?t1)) \<and>
          depth ((heap ?t1 @ [new_Bucket (bucket_size ?t1) (global_depth ?t1)]) ! a)
            \<le> global_depth ?t1"
      if "a \<in> set ((dir ?t1)[i := ?bptr])" for a
    proof -
      from that set_update_subset_insert
      have "a = length (heap ?t1) \<or> a \<in> set (dir ?t1)" by fastforce
      then show ?thesis
      proof
        assume "a = length (heap ?t1)"
        then show ?thesis by (simp add: new_Bucket_def)
      next
        assume "a \<in> set (dir ?t1)"
        with wf1 have "a < length (heap ?t1)" "depth (heap ?t1 ! a) \<le> global_depth ?t1"
          by (simp_all add: wf_table_def)
        then show ?thesis by (simp add: nth_append)
      qed
    qed
    moreover have "length (dir ?t1) = 2 ^ global_depth ?t1" using wf1 by (simp add: wf_table_def)
    ultimately show ?thesis unfolding wf_table_def by simp
  qed
  show ?thesis
    unfolding split_local_def Let_def
    using wf3 by (auto intro: wf_RedistributeBucket)
qed

lemma wf_Insert_retry:
  assumes "wf_table t" and "Insert_retry hash key t = Some t'"
  shows "wf_table t'"
  using assms wf_split_double [OF assms(1) IndexOf_less [OF assms(1)], of hash key hash]
    wf_split_local [OF assms(1) IndexOf_less [OF assms(1)], of hash key hash]
  by (auto simp: Insert_retry_def Let_def split: option.splits if_splits)

lemma wf_Insert_final:
  assumes "wf_table t"
  shows "wf_table (Insert_final hash key val t)"
proof -
  have "wf_table (t\<lparr>heap := (heap t)[a := snd (Bucket_Insert key v (heap t ! a))]\<rparr>)" for a v
    using wf_table_cong [of "t\<lparr>heap := (heap t)[a := snd (Bucket_Insert key v (heap t ! a))]\<rparr>" t]
      assms by (simp add: map_depth_update)
  then show ?thesis by (simp add: Insert_final_def Let_def split: option.splits)
qed

lemma wf_Insert:
  assumes "Insert hash key val t = Some t'" and "wf_table t"
  shows "wf_table t'"
proof -
  have "wf_table t \<longrightarrow> wf_table t'"
    by (rule Insert_retry_induct [OF assms(1)]) (auto intro: wf_Insert_final wf_Insert_retry)
  with assms(2) show ?thesis by simp
qed

lemma wf_Table_Remove:
  assumes "wf_table t"
  shows "wf_table (snd (Table_Remove hash key t))"
  using wf_table_cong [of "snd (Table_Remove hash key t)" t] assms
  by (simp add: Table_Remove_def Let_def map_depth_update)

lemma wf_new_table: "wf_table (new_ExtendibleHashTable bsize)"
  by (simp add: wf_table_def new_ExtendibleHashTable_def new_Bucket_def)

lemma table_reachable_wf: "table_reachable hash t \<Longrightarrow> wf_table t"
  by (induction rule: table_reachable.induct)
     (auto intro: wf_new_table wf_Insert wf_Insert_retry wf_Table_Remove)

text \<open>
  Claim C9. In every reachable table, including the tables on which \<open>Insert\<close> retries,
  the directory has \<open>2 ^ global_depth\<close> slots and \<open>IndexOf\<close> is below its length,
  so \<open>dir[idx]\<close> is in range; the slot points to an allocated bucket.
\<close>

theorem IndexOf_in_bounds:
  assumes "table_reachable hash t"
  shows "length (dir t) = 2 ^ global_depth t \<and>
         IndexOf hash t key < length (dir t) \<and>
         dir t ! IndexOf hash t key < length (heap t)"
  using table_reachable_wf [OF assms] IndexOf_less [of t hash key]
    wf_table_nth [of t "IndexOf hash t key"]
  by (simp add: wf_table_def)

lemma table_reachable_Inserts:
  "table_reachable hash t \<Longrightarrow> Inserts hash kvs t = Some t' \<Longrightarrow> table_reachable hash t'"
proof (induction kvs arbitrary: t)
  case Nil
  then show ?case by simp
next
  case (Cons kv kvs)
  from Cons.prems(2) obtain t1 where
    t1: "Insert hash (fst kv) (snd kv) t = Some t1" "Inserts hash kvs t1 = Some t'"
    by (auto split: option.splits)
  from Cons.IH [OF reach_Insert [OF Cons.prems(1) t1(1)] t1(2)] show ?case .
qed

lemma Inserts_split_before:
  "Inserts hash_int [(0, 0), (1, 10), (2, 20)] (new_ExtendibleHashTable 1) = Some split_before"
  by code_simp

lemma Insert_split_after: "Insert hash_int 3 30 split_before = Some split_after"
  by code_simp

theorem IndexOf_in_bounds_witness:
  "table_reachable hash_int split_after \<and>
   length (dir split_after) = 2 ^ global_depth split_after \<and>
   IndexOf hash_int split_after 7 < length (dir split_after) \<and>
   dir split_after ! IndexOf hash_int split_after 7 < length (heap split_after)"
proof -
  have "table_reachable hash_int split_before"
    using table_reachable_Inserts [OF reach_new_table Inserts_split_before] .
  from reach_Insert [OF this Insert_split_after]
  have r: "table_reachable hash_int split_after" .
  from IndexOf_in_bounds [OF r, of 7] r show ?thesis by simp
qed

subsection \<open>Insert on a key that is present\<close>

text \<open>
  Claim C2 fails on the code. When the bucket of the key holds the key, \<open>Insert\<close>
  returns the table as it was: the value handed to the bucket is the one \<open>Find\<close> has
  just written over \<open>tmp\<close>, so the old value stays and the new one is dropped.
\<close>

theorem Insert_keeps_old_value:
  assumes "Find hash key t = Some old"
  shows "Insert hash key val t = Some t \<and> Find hash key t = Some old"
proof -
  let ?a = "dir t ! IndexOf hash t key"
  from assms have f: "map_of (items (heap t ! ?a)) key = Some old"
    by (simp add: Find_def Bucket_Find_def)
  have "snd (Bucket_Insert key old (heap t ! ?a)) = heap t ! ?a"
    using AList.update_triv [OF f] by (simp add: Bucket_Insert_def)
  then have "t\<lparr>heap := (heap t)[?a := snd (Bucket_Insert key old (heap t ! ?a))]\<rparr> = t"
    by simp
  with f have "Insert hash key val t = Some t"
    by (subst Insert.simps) (simp add: Let_def Bucket_Find_def)
  with assms show ?thesis by simp
qed

theorem Insert_keeps_old_value_witness:
  "Inserts hash_int [(1, 10)] (new_ExtendibleHashTable 2) = Some one_entry_example \<and>
   Find hash_int 1 one_entry_example = Some 10 \<and>
   Insert hash_int 1 20 one_entry_example = Some one_entry_example"
proof -
  have i: "Inserts hash_int [(1, 10)] (new_ExtendibleHashTable 2) = Some one_entry_example"
    by code_simp
  have f: "Find hash_int 1 one_entry_example = Some 10"
    by code_simp
  from Insert_keeps_old_value [OF f, of 20] i f show ?thesis by simp
qed

subsection \<open>Splits: the bucket count and the keys\<close>

text \<open>
  Claim C7 fails on the code. A split that does not double the directory leaves
  \<open>num_buckets\<close> as it was: with buckets of one entry and the keys 0, 1, 2 in the
  table, \<open>Insert\<close> of key 3 finds its bucket full, splits it, and \<open>GetNumBuckets\<close>
  stays 3 while the directory goes from three buckets to four. And a split can lose keys:
  with buckets of two entries and the keys 0, 4, 8, 5, 13, 1, 3 in the table, \<open>Insert\<close>
  of key 9 puts a new bucket over the one that holds 5 and 13, and key 5 is not found
  afterwards.
\<close>

theorem Insert_split_examples:
  "Inserts hash_int [(0, 0), (1, 10), (2, 20)] (new_ExtendibleHashTable 1) = Some split_before \<and>
   IsFull (heap split_before ! (dir split_before ! IndexOf hash_int split_before 3)) \<and>
   Find hash_int 3 split_before = None \<and>
   Insert hash_int 3 30 split_before = Some split_after \<and>
   GetGlobalDepth split_before = 2 \<and> GetGlobalDepth split_after = 2 \<and>
   GetNumBuckets split_before = 3 \<and> GetNumBuckets split_after = 3 \<and>
   remdups (dir split_before) = [0, 2, 1] \<and> remdups (dir split_after) = [0, 1, 2, 3] \<and>
   Inserts hash_int [(0, 0), (4, 4), (8, 8), (5, 5), (13, 13), (1, 1), (3, 3)]
     (new_ExtendibleHashTable 2) = Some loss_before \<and>
   IsFull (heap loss_before ! (dir loss_before ! IndexOf hash_int loss_before 9)) \<and>
   Find hash_int 5 loss_before = Some 5 \<and>
   Insert hash_int 9 9 loss_before = Some loss_after \<and>
   Find hash_int 5 loss_after = None"
  by (intro conjI; code_simp)

subsection \<open>A call of Insert that never returns\<close>

lemma redistribute_loop_stay:
  "(\<forall>it \<in> set its. dir t ! IndexOf hash t (fst it) = bucket) \<Longrightarrow>
   redistribute_loop hash bucket its t = t"
  by (induction its) simp_all

lemma loop_inv_facts:
  assumes "loop_inv t"
  shows "16 \<le> length (dir t)" and "length (dir t) = 2 ^ global_depth t"
    and "1 < length (heap t)"
    and "IndexOf hash_int t 1 = 1" and "IndexOf hash_int t 5 = 5" and "IndexOf hash_int t 13 = 13"
proof -
  from assms have g: "4 \<le> global_depth t" and len: "length (dir t) = 2 ^ global_depth t"
    and wf: "wf_table t" and d1: "dir t ! 1 = 1"
    by (simp_all add: loop_inv_def wf_table_def)
  have "(2::nat) ^ 4 \<le> 2 ^ global_depth t" using g by (intro power_increasing) simp_all
  then show big: "16 \<le> length (dir t)" using len by simp
  show "length (dir t) = 2 ^ global_depth t" by (rule len)
  from wf_table_nth [OF wf, of 1] big d1 show "1 < length (heap t)" by simp
  have m: "n mod 2 ^ global_depth t = n" if "n < 16" for n :: nat
    using that big len by (intro mod_less) simp
  show "IndexOf hash_int t 1 = 1" "IndexOf hash_int t 5 = 5" "IndexOf hash_int t 13 = 13"
    using m [of 1] m [of 5] m [of 13] by (simp_all add: IndexOf_def hash_int_def)
qed

lemma loop_inv_retry:
  assumes "loop_inv t"
  shows "Insert_retry hash_int 1 t =
           Some (if GetGlobalDepth t = GetLocalDepth t 1 then split_double hash_int 1 t
                 else split_local hash_int 1 t)"
  using assms loop_inv_facts(4) [OF assms]
  by (simp add: Insert_retry_def loop_inv_def Bucket_Find_def IsFull_def)

lemma loop_inv_split_double:
  assumes inv: "loop_inv t" and eq: "GetGlobalDepth t = GetLocalDepth t 1"
  shows "loop_inv (split_double hash_int 1 t)"
proof -
  note f = loop_inv_facts [OF inv]
  from inv have wf: "wf_table t" and g: "4 \<le> global_depth t"
    and d: "dir t ! 1 = 1" "dir t ! 5 = 1" "dir t ! 13 = 1"
    and b: "array_size (heap t ! 1) = 2" "items (heap t ! 1) = [(5, 5), (13, 13)]"
    by (simp_all add: loop_inv_def)
  let ?t1 = "DoubleDir 1 t"
  let ?t2 = "IncrementDepth_at 1 ?t1"
  have nth1: "dir ?t1 ! i = dir t ! i" if "i < 16" for i
    using that f(1,2) by (simp add: DoubleDir_wf_eq [OF wf] nth_list_update nth_append)
  have h1: "heap ?t1 ! 1 = heap t ! 1"
    using f(3) by (cases "heap t") (auto simp: DoubleDir_wf_eq [OF wf] nth_append)
  have l1: "1 < length (heap ?t1)"
    using f(3) by (cases "heap t") (auto simp: DoubleDir_wf_eq [OF wf])
  have g1: "global_depth ?t1 = global_depth t + 1" by (simp add: DoubleDir_wf_eq [OF wf])
  have sd: "split_double hash_int 1 t = RedistributeBucket hash_int 1 ?t2"
    using nth1 [of 1] d by (simp add: split_double_def Let_def IncrementDepth_at_def)
  have d2: "dir ?t2 ! 1 = 1" "dir ?t2 ! 5 = 1" "dir ?t2 ! 13 = 1"
    using nth1 d by (simp_all add: IncrementDepth_at_def)
  have b2: "array_size (heap ?t2 ! 1) = 2" "items (heap ?t2 ! 1) = [(5, 5), (13, 13)]"
    using l1 h1 b by (simp_all add: IncrementDepth_at_def IncrementDepth_def)
  have g2: "global_depth ?t2 = global_depth t + 1" using g1 by (simp add: IncrementDepth_at_def)
  have len2: "length (dir ?t2) = 2 * length (dir t)"
    using f(2) by (simp add: IncrementDepth_at_def DoubleDir_wf_eq [OF wf])
  have m2: "n mod 2 ^ global_depth ?t2 = n" if "n < 16" for n :: nat
    using that f(1,2) g2 by (intro mod_less) simp
  have i2: "IndexOf hash_int ?t2 5 = 5" "IndexOf hash_int ?t2 13 = 13"
    using m2 [of 5] m2 [of 13] by (simp_all add: IndexOf_def hash_int_def)
  have "\<forall>it \<in> set [(5, 5), (13, 13)]. dir ?t2 ! IndexOf hash_int ?t2 (fst it) = 1"
    using i2 d2 by simp
  then have "redistribute_loop hash_int 1 [(5, 5), (13, 13)] ?t2 = ?t2"
    by (rule redistribute_loop_stay)
  moreover have "RedistributeBucket hash_int 1 ?t2 =
      redistribute_loop hash_int 1 [(5, 5), (13, 13)] ?t2"
    by (simp only: RedistributeBucket_def b2(2))
  ultimately have r: "split_double hash_int 1 t = ?t2"
    by (simp only: sd)
  have "wf_table (split_double hash_int 1 t)"
    using wf_split_double [OF wf _ eq, of hash_int] f(1) by simp
  with d2 b2 g2 g show ?thesis
    unfolding r loop_inv_def by simp
qed

lemma loop_inv_split_local:
  assumes inv: "loop_inv t" and ne: "GetGlobalDepth t \<noteq> GetLocalDepth t 1"
  shows "loop_inv (split_local hash_int 1 t)"
proof -
  note f = loop_inv_facts [OF inv]
  from inv have wf: "wf_table t" and g: "4 \<le> global_depth t"
    and d: "dir t ! 1 = 1" "dir t ! 5 = 1" "dir t ! 13 = 1"
    and b: "array_size (heap t ! 1) = 2" "items (heap t ! 1) = [(5, 5), (13, 13)]"
    by (simp_all add: loop_inv_def)
  define tmp :: nat where "tmp = 2 ^ (global_depth t - 1)"
  have "(2::nat) ^ 3 \<le> 2 ^ (global_depth t - 1)" using g by (intro power_increasing) simp_all
  then have t8: "8 \<le> tmp" by (simp add: tmp_def)
  have "(2::nat) ^ 3 dvd 2 ^ (global_depth t - 1)" using g by (intro le_imp_power_dvd) simp
  then have dv: "8 dvd tmp" by (simp add: tmp_def)
  have t12: "tmp \<noteq> 12"
  proof
    assume "tmp = 12"
    with dv have "(8::nat) dvd 12" by simp
    then show False by presburger
  qed
  let ?h1 = "(heap t)[1 := IncrementDepth (heap t ! 1)]"
  let ?t3 = "t\<lparr>heap := ?h1 @ [new_Bucket (bucket_size t) (global_depth t)],
               dir := (dir t)[1 + tmp := length (heap t)]\<rparr>"
  have sl: "split_local hash_int 1 t = RedistributeBucket hash_int (dir ?t3 ! 1) ?t3"
    using t8 d by (simp add: split_local_def Let_def IncrementDepth_at_def tmp_def)
  have d3: "dir ?t3 ! 1 = 1" "dir ?t3 ! 5 = 1" "dir ?t3 ! 13 = 1"
    using d t8 t12 by (simp_all add: nth_list_update)
  have b3: "array_size (heap ?t3 ! 1) = 2" "items (heap ?t3 ! 1) = [(5, 5), (13, 13)]"
    using f(3) b by (cases "heap t"; auto simp: nth_append IncrementDepth_def)+
  have i3: "IndexOf hash_int ?t3 5 = 5" "IndexOf hash_int ?t3 13 = 13"
    using f(5,6) by (simp_all add: IndexOf_def)
  have "\<forall>it \<in> set [(5, 5), (13, 13)]. dir ?t3 ! IndexOf hash_int ?t3 (fst it) = 1"
    using i3 d3 by simp
  then have "redistribute_loop hash_int 1 [(5, 5), (13, 13)] ?t3 = ?t3"
    by (rule redistribute_loop_stay)
  moreover have "RedistributeBucket hash_int (dir ?t3 ! 1) ?t3 =
      redistribute_loop hash_int 1 [(5, 5), (13, 13)] ?t3"
    by (simp only: RedistributeBucket_def d3(1) b3(2))
  ultimately have r: "split_local hash_int 1 t = ?t3"
    by (simp only: sl)
  have "wf_table (split_local hash_int 1 t)"
    using wf_split_local [OF wf _ ne, of hash_int] f(1) by simp
  then have "wf_table ?t3" by (simp only: r)
  with d3 b3 g show ?thesis
    unfolding r loop_inv_def by simp
qed

lemma loop_inv_Insert:
  assumes "Insert hash_int 1 val t = Some y"
  shows "\<not> loop_inv t"
proof (rule Insert_retry_induct [OF assms])
  fix t :: "(int, nat) ExtendibleHashTable"
  assume "Insert_retry hash_int 1 t = None"
  with loop_inv_retry [of t] show "\<not> loop_inv t" by auto
next
  fix t t' :: "(int, nat) ExtendibleHashTable"
  assume r: "Insert_retry hash_int 1 t = Some t'" and n: "\<not> loop_inv t'"
  show "\<not> loop_inv t"
  proof
    assume inv: "loop_inv t"
    from loop_inv_retry [OF inv] r loop_inv_split_double [OF inv] loop_inv_split_local [OF inv]
    have "loop_inv t'" by (auto split: if_splits)
    with n show False by simp
  qed
qed

lemma loop_inv_loop_example: "loop_inv loop_example"
  unfolding loop_inv_def wf_table_def by (intro conjI; code_simp)

text \<open>
  Claim C8 fails on the code. With buckets of two entries and the keys 0, 8, 16, 5, 13 in
  the table, every odd directory slot points to the bucket that holds 5 and 13. \<open>Insert\<close>
  of key 1 finds that bucket full; each retry puts a new bucket at one other slot and
  leaves 5 and 13 where they are, so the bucket of key 1 is full at every retry and the
  call never returns, while the local depth or the global depth grows at every retry.
\<close>

theorem Insert_never_returns:
  "Inserts hash_int [(0, 0), (8, 8), (16, 16), (5, 5), (13, 13)] (new_ExtendibleHashTable 2)
     = Some loop_example \<and>
   Insert hash_int 1 1 loop_example = None"
proof -
  have "Inserts hash_int [(0, 0), (8, 8), (16, 16), (5, 5), (13, 13)] (new_ExtendibleHashTable 2)
     = Some loop_example"
    by code_simp
  moreover have "Insert hash_int 1 1 loop_example = None"
    using loop_inv_Insert [of 1 loop_example] loop_inv_loop_example
    by (cases "Insert hash_int 1 1 loop_example") auto
  ultimately show ?thesis by simp
qed

subsection \<open>UnpinPage\<close>

text \<open>The definitions unfolded to run the manager on a concrete pool.\<close>

lemmas bpm_eval =
  bpm_step_def NewPgImp_def FetchPgImp_def UnpinPgImp_def DeletePgImp_def FlushPgImp_def
  GetNewFrame_def WritePage_def ResetMemory_def new_Page_def INVALID_PAGE_ID_def
  new_BufferPoolManagerInstance_def new_LRUKReplacer_def new_ExtendibleHashTable_def new_Bucket_def
  Table_Remove_def Bucket_Remove_def Bucket_Insert_def Bucket_Find_def Find_def IndexOf_def
  hash_int_def IsFull_def Insert.simps [of hash_int]
  RecordAccess_def SetEvictable_def Remove_def Evict_def evict_scan_def evict_step_def evict_init_def
  LONG_MAX_def new_Slot_def push_front_def pop_back_def inc_record_nums_def Let_def
  example_pool_def key_order_def

text \<open>
  Claim C1, as amended. For a resident page whose frame is pinned, \<open>UnpinPage\<close>
  returns true, decrements the pin count, and sets the dirty flag to the argument, so a
  call with \<open>false\<close> clears a flag that was set. When the count reaches zero the frame
  is marked evictable in the replacer, where it must have a slot (otherwise
  \<open>SetEvictable\<close> fails its assertion); when it does not, the replacer is left alone.
  Nothing else changes.
\<close>

theorem UnpinPgImp_resident:
  assumes "Find hash pid (page_table b) = Some f"
    and "f < length (pages b)"
    and "0 < pin_count (pages b ! f)"
    and "pin_count (pages b ! f) = 1 \<longrightarrow> map_of (slots (replacer b)) f \<noteq> None"
  shows "\<exists>b'. UnpinPgImp hash pid dirty b = Inr (True, b') \<and>
     pin_count (pages b' ! f) = pin_count (pages b ! f) - 1 \<and>
     is_dirty (pages b' ! f) = dirty \<and>
     page_id (pages b' ! f) = page_id (pages b ! f) \<and>
     data (pages b' ! f) = data (pages b ! f) \<and>
     (\<forall>g. g \<noteq> f \<longrightarrow> pages b' ! g = pages b ! g) \<and>
     (if pin_count (pages b ! f) = 1
      then SetEvictable f True (replacer b) = Inr (replacer b') \<and>
           (\<exists>sl. map_of (slots (replacer b')) f = Some sl \<and> evictable sl)
      else replacer b' = replacer b) \<and>
     page_table b' = page_table b \<and> free_list b' = free_list b \<and>
     next_page_id b' = next_page_id b \<and> disk b' = disk b"
proof (cases "pin_count (pages b ! f) = 1")
  case True
  with assms(4) obtain sl where sl: "map_of (slots (replacer b)) f = Some sl" by auto
  then obtain r1 where r1: "SetEvictable f True (replacer b) = Inr r1"
    and m: "map_of (slots r1) f = Some (sl\<lparr>evictable := True\<rparr>)"
    by (simp add: SetEvictable_def Let_def AList.update_conv')
  with assms(1,2) True show ?thesis
    by (simp add: UnpinPgImp_def Let_def)
next
  case False
  with assms(1,2,3) show ?thesis
    by (simp add: UnpinPgImp_def Let_def)
qed

lemma unpin_dirty_run:
  "bpm_run hash_int key_order [CallNewPage, CallFetchPage 0, CallUnpinPage 0 True] (example_pool e 1) =
     Inr (unpin_dirty_example e)"
  by (cases e) (simp_all add: bpm_eval unpin_dirty_example_def)

lemma unpin_clean_step:
  "UnpinPgImp hash_int 0 False (unpin_dirty_example e) = Inr (True, unpin_clean_example e)"
  by (cases e) (simp_all add: bpm_eval unpin_dirty_example_def unpin_clean_example_def)

theorem UnpinPgImp_resident_witness:
  "Find hash_int 0 (page_table (unpin_dirty_example True)) = Some 0 \<and>
   0 < pin_count (pages (unpin_dirty_example True) ! 0) \<and>
   (\<exists>b'. UnpinPgImp hash_int 0 False (unpin_dirty_example True) = Inr (True, b') \<and>
         pin_count (pages b' ! 0) = 0 \<and> is_dirty (pages b' ! 0) = False \<and>
         (\<exists>sl. map_of (slots (replacer b')) 0 = Some sl \<and> evictable sl))"
proof -
  have h: "Find hash_int 0 (page_table (unpin_dirty_example True)) = Some 0"
    "0 < length (pages (unpin_dirty_example True))"
    "0 < pin_count (pages (unpin_dirty_example True) ! 0)"
    "pin_count (pages (unpin_dirty_example True) ! 0) = 1 \<longrightarrow>
       map_of (slots (replacer (unpin_dirty_example True))) 0 \<noteq> None"
    by (simp_all add: unpin_dirty_example_def Find_def Bucket_Find_def IndexOf_def)
  have p: "pin_count (pages (unpin_dirty_example True) ! 0) = 1"
    by (simp add: unpin_dirty_example_def)
  from UnpinPgImp_resident [OF h, of False] p h(1,3) show ?thesis
    by auto
qed

text \<open>
  The claim as stated fails: page 0, pinned twice and unpinned once with \<open>true\<close>, is
  dirty; \<open>UnpinPage(0, false)\<close> then clears the flag.
\<close>

theorem UnpinPgImp_claim_counterexample:
  "bpm_run hash_int key_order [CallNewPage, CallFetchPage 0, CallUnpinPage 0 True] (example_pool True 1) =
     Inr (unpin_dirty_example True) \<and>
   bpm_run hash_int key_order [CallNewPage, CallFetchPage 0, CallUnpinPage 0 True] (example_pool False 1) =
     Inr (unpin_dirty_example False) \<and>
   UnpinPgImp hash_int 0 False (unpin_dirty_example True) = Inr (True, unpin_clean_example True) \<and>
   UnpinPgImp hash_int 0 False (unpin_dirty_example False) = Inr (True, unpin_clean_example False) \<and>
   is_dirty (pages (unpin_dirty_example True) ! 0) \<and>
   is_dirty (pages (unpin_dirty_example False) ! 0) \<and>
   \<not> is_dirty (pages (unpin_clean_example True) ! 0) \<and>
   \<not> is_dirty (pages (unpin_clean_example False) ! 0)"
proof -
  have d: "is_dirty (pages (unpin_dirty_example e) ! 0)"
    "\<not> is_dirty (pages (unpin_clean_example e) ! 0)" for e
    by (simp_all add: unpin_dirty_example_def unpin_clean_example_def)
  show ?thesis
    by (intro conjI unpin_dirty_run unpin_clean_step d)
qed

subsection \<open>NewPage\<close>

lemma RecordAccess_slot:
  "RecordAccess f r = Inr r1 \<Longrightarrow> \<exists>sl. map_of (slots r1) f = Some sl"
  by (auto simp: RecordAccess_def AList.update_conv' split: option.splits if_splits)

lemma SetEvictable_slot:
  "SetEvictable f e r = Inr r2 \<Longrightarrow>
   \<exists>sl. map_of (slots r) f = Some sl \<and> map_of (slots r2) f = Some (sl\<lparr>evictable := e\<rparr>)"
  by (auto simp: SetEvictable_def Let_def AList.update_conv' split: option.splits)

lemma Insert_present:
  assumes "Find hash key t = Some old"
  shows "Insert hash key val t = Some t"
proof -
  let ?a = "dir t ! IndexOf hash t key"
  from assms have f: "map_of (items (heap t ! ?a)) key = Some old"
    by (simp add: Find_def Bucket_Find_def)
  have "snd (Bucket_Insert key old (heap t ! ?a)) = heap t ! ?a"
    using AList.update_triv [OF f] by (simp add: Bucket_Insert_def)
  then have "t\<lparr>heap := (heap t)[?a := snd (Bucket_Insert key old (heap t ! ?a))]\<rparr> = t"
    by simp
  with f show ?thesis
    by (subst Insert.simps) (simp add: Let_def Bucket_Find_def)
qed

text \<open>
  Claim C4 fails on the code. When \<open>NewPage\<close> returns frame \<open>f\<close>, the identifier is
  the value of the counter, which grows by one; the frame holds the identifier, a zeroed
  payload and the pin count 1; the frame has a slot in the replacer that is not evictable.
  But the dirty flag of the frame is the one it had: \<open>NewPgImp\<close> writes a dirty frame
  to the disk and never clears \<open>is_dirty_\<close>. And the page table is the one that the
  table's \<open>Insert\<close> returns for the identifier after the frame's old identifier is
  removed: when the identifier is already in the table, for a frame \<open>g\<close>, it still
  maps to \<open>g\<close> afterwards.
\<close>

theorem NewPgImp_frame:
  assumes "NewPgImp hash iter b = Inr (Some (pid, f), b')" and "f < length (pages b)"
  shows "pid = next_page_id b \<and> next_page_id b' = pid + 1 \<and>
     page_id (pages b' ! f) = pid \<and> pin_count (pages b' ! f) = 1 \<and>
     data (pages b' ! f) = replicate (page_size b) 0 \<and>
     is_dirty (pages b' ! f) = is_dirty (pages b ! f) \<and>
     Insert hash pid f (snd (Table_Remove hash (page_id (pages b ! f)) (page_table b))) =
       Some (page_table b') \<and>
     (\<forall>g. Find hash pid (snd (Table_Remove hash (page_id (pages b ! f)) (page_table b))) = Some g
        \<longrightarrow> Find hash pid (page_table b') = Some g) \<and>
     (\<exists>sl. map_of (slots (replacer b')) f = Some sl \<and> \<not> evictable sl)"
proof -
  obtain b1 where g: "GetNewFrame iter b = (Some f, b1)"
  proof (cases "GetNewFrame iter b")
    case (Pair o1 b1)
    with assms(1) have "o1 = Some f"
      by (cases o1) (auto simp: NewPgImp_def Let_def split: option.splits sum.splits)
    with Pair that show ?thesis by simp
  qed
  have b1: "pages b1 = pages b" "next_page_id b1 = next_page_id b"
    "page_table b1 = page_table b" "page_size b1 = page_size b"
    using g by (auto simp: GetNewFrame_def split: list.splits prod.splits)
  let ?pt1 = "snd (Table_Remove hash (page_id (pages b ! f)) (page_table b))"
  define b3 where "b3 = (if is_dirty (pages b ! f)
      then WritePage f (b1\<lparr>next_page_id := next_page_id b + 1\<rparr>)
      else b1\<lparr>next_page_id := next_page_id b + 1\<rparr>)"
  have b3: "pages b3 = pages b" "next_page_id b3 = next_page_id b + 1"
    "page_table b3 = page_table b" "page_size b3 = page_size b"
    by (simp_all add: b3_def WritePage_def b1)
  have unf: "NewPgImp hash iter b =
      (case Insert hash (next_page_id b) f ?pt1 of
         None \<Rightarrow> Inl NoReturn
       | Some pt2 \<Rightarrow>
           (case RecordAccess f (replacer b3) of
              Inl e \<Rightarrow> Inl e
            | Inr r1 \<Rightarrow>
                (case SetEvictable f False r1 of
                   Inl e \<Rightarrow> Inl e
                 | Inr r2 \<Rightarrow>
                     Inr (Some (next_page_id b, f),
                          b3\<lparr>page_table := pt2, replacer := r2,
                             pages := (pages b3)[f := (ResetMemory (page_size b3) (pages b3 ! f))
                               \<lparr>page_id := next_page_id b, pin_count := 1\<rparr>]\<rparr>))))"
    by (cases "is_dirty (pages b ! f)")
      (simp_all add: NewPgImp_def g Let_def b1 b3_def WritePage_def
        split: option.splits sum.splits)
  obtain pt2 where ins: "Insert hash (next_page_id b) f ?pt1 = Some pt2"
    using assms(1) unfolding unf by (cases "Insert hash (next_page_id b) f ?pt1") simp_all
  obtain r1 where ra: "RecordAccess f (replacer b3) = Inr r1"
    using assms(1) unfolding unf ins by (cases "RecordAccess f (replacer b3)") simp_all
  obtain r2 where se: "SetEvictable f False r1 = Inr r2"
    using assms(1) unfolding unf ins ra by (cases "SetEvictable f False r1") simp_all
  have res: "pid = next_page_id b"
      "b' = b3\<lparr>page_table := pt2, replacer := r2,
           pages := (pages b3)[f := (ResetMemory (page_size b3) (pages b3 ! f))
              \<lparr>page_id := next_page_id b, pin_count := 1\<rparr>]\<rparr>"
    using assms(1) by (auto simp: unf ins ra se)
  from SetEvictable_slot [OF se] obtain sl where
    sl: "map_of (slots r2) f = Some (sl\<lparr>evictable := False\<rparr>)" by blast
  have find: "Find hash pid (page_table b') = Some g" if "Find hash pid ?pt1 = Some g" for g
  proof -
    from that res(1) have "Find hash (next_page_id b) ?pt1 = Some g" by simp
    from Insert_present [OF this, of f] ins have "pt2 = ?pt1" by simp
    with that show ?thesis by (simp add: res)
  qed
  show ?thesis
    using assms(2) ins sl find by (simp add: res b3 ResetMemory_def)
qed

lemma upt_0_2: "[0..<2] = [0, 1]"
  by (simp add: numeral_2_eq_2)

lemma replicate_2: "replicate 2 x = [x, x]"
  by (simp add: numeral_2_eq_2)

lemma dirty_unpinned_run:
  "bpm_run hash_int key_order [CallNewPage, CallUnpinPage 0 True] (example_pool True 1) =
     Inr dirty_unpinned_example"
  by (simp add: bpm_eval dirty_unpinned_example_def)

lemma new_page_dirty_step:
  "NewPgImp hash_int key_order dirty_unpinned_example = Inr (Some (1, 0), new_page_dirty_example)"
  by (simp add: bpm_eval dirty_unpinned_example_def new_page_dirty_example_def)

lemma fetched_run:
  "bpm_run hash_int key_order [CallFetchPage 0] (example_pool e 2) = Inr (fetched_example e)"
  by (cases e) (simp_all add: bpm_eval upt_0_2 replicate_2 example_disk_def fetched_example_def)

lemma new_page_resident_step:
  "NewPgImp hash_int key_order (fetched_example e) =
     Inr (Some (0, 1), new_page_resident_example e)"
  by (cases e) (simp_all add: bpm_eval fetched_example_def new_page_resident_example_def)

theorem NewPgImp_frame_witness:
  "bpm_run hash_int key_order [CallNewPage, CallUnpinPage 0 True] (example_pool True 1) =
     Inr dirty_unpinned_example \<and>
   NewPgImp hash_int key_order dirty_unpinned_example = Inr (Some (1, 0), new_page_dirty_example) \<and>
   0 < length (pages dirty_unpinned_example) \<and>
   page_id (pages new_page_dirty_example ! 0) = 1 \<and>
   pin_count (pages new_page_dirty_example ! 0) = 1 \<and>
   is_dirty (pages new_page_dirty_example ! 0) \<and>
   bpm_run hash_int key_order [CallFetchPage 0] (example_pool True 2) = Inr (fetched_example True) \<and>
   NewPgImp hash_int key_order (fetched_example True) =
     Inr (Some (0, 1), new_page_resident_example True) \<and>
   1 < length (pages (fetched_example True)) \<and>
   page_id (pages (new_page_resident_example True) ! 1) = 0 \<and>
   Find hash_int 0 (page_table (new_page_resident_example True)) = Some 0"
proof -
  have l: "0 < length (pages dirty_unpinned_example)" "1 < length (pages (fetched_example True))"
    by (simp_all add: dirty_unpinned_example_def fetched_example_def)
  have d: "is_dirty (pages dirty_unpinned_example ! 0)"
    by (simp add: dirty_unpinned_example_def)
  have f: "Find hash_int 0 (snd (Table_Remove hash_int
      (page_id (pages (fetched_example True) ! 1)) (page_table (fetched_example True)))) = Some 0"
    by (simp add: fetched_example_def Find_def Table_Remove_def Bucket_Find_def Bucket_Remove_def
        IndexOf_def Let_def)
  from NewPgImp_frame [OF new_page_dirty_step l(1)] d
  have A: "page_id (pages new_page_dirty_example ! 0) = 1 \<and>
      pin_count (pages new_page_dirty_example ! 0) = 1 \<and>
      is_dirty (pages new_page_dirty_example ! 0)"
    by simp
  from NewPgImp_frame [OF new_page_resident_step [of True] l(2)] f
  have B: "page_id (pages (new_page_resident_example True) ! 1) = 0 \<and>
      Find hash_int 0 (page_table (new_page_resident_example True)) = Some 0"
    by simp
  show ?thesis
    using A B l by (intro conjI dirty_unpinned_run new_page_dirty_step fetched_run
        new_page_resident_step) simp_all
qed

subsection \<open>DeletePage and the page table\<close>

lemma erase_first_key_gone:
  "distinct (map fst xs) \<Longrightarrow> k \<notin> fst ` set (erase_first k xs)"
proof (induction xs)
  case Nil
  then show ?case by simp
next
  case (Cons x xs)
  then show ?case by (auto simp: image_iff)
qed

lemma Bucket_Remove_key_gone:
  "distinct (map fst (items b)) \<Longrightarrow> map_of (items (snd (Bucket_Remove k b))) k = None"
  using erase_first_key_gone [of "items b" k]
  by (auto simp: Bucket_Remove_def map_of_eq_None_iff split: option.splits)

text \<open>
  Claim C5 fails on the code. \<open>DeletePage\<close> of a resident page that is not pinned
  removes its entry from the page table, zeroes the payload and puts the frame on the free
  list, and leaves \<open>page_id_\<close> as it is: afterwards the frame still holds the page's
  identifier and the table has no entry for it. (The bucket of the page is an allocated one
  and holds no key twice, as in every table that the operations build.)
\<close>

theorem DeletePgImp_keeps_page_id:
  assumes "Find hash pid (page_table b) = Some f" and "f < length (pages b)"
    and "page_id (pages b ! f) = pid" and "pin_count (pages b ! f) = 0"
    and "dir (page_table b) ! IndexOf hash (page_table b) pid < length (heap (page_table b))"
    and "distinct (map fst (items (heap (page_table b) !
           (dir (page_table b) ! IndexOf hash (page_table b) pid))))"
    and "DeletePgImp hash pid b = Inr (res, b')"
  shows "res \<and> page_id (pages b' ! f) = pid \<and>
     data (pages b' ! f) = replicate (page_size b) 0 \<and>
     Find hash pid (page_table b') = None \<and>
     free_list b' = free_list b @ [f] \<and>
     Remove f (replacer b) = Inr (replacer b')"
proof -
  let ?pt = "page_table b"
  let ?a = "dir ?pt ! IndexOf hash ?pt pid"
  from assms(1,4,7) obtain r1 where r: "Remove f (replacer b) = Inr r1"
    and b': "res" "b' = b\<lparr>page_table := snd (Table_Remove hash pid ?pt), replacer := r1,
        pages := (pages b)[f := ResetMemory (page_size b) (pages b ! f)],
        free_list := free_list b @ [f]\<rparr>"
    by (auto simp: DeletePgImp_def Let_def split: sum.splits)
  have "Find hash pid (snd (Table_Remove hash pid ?pt)) = None"
    using assms(5) Bucket_Remove_key_gone [OF assms(6), of pid]
    by (simp add: Find_def Table_Remove_def Let_def IndexOf_def Bucket_Find_def)
  with r b' assms(2,3) show ?thesis by (simp add: ResetMemory_def)
qed

lemma unpinned_run:
  "bpm_run hash_int key_order [CallNewPage, CallUnpinPage 0 False] (example_pool e 1) =
     Inr (unpinned_example e)"
  by (cases e) (simp_all add: bpm_eval unpinned_example_def)

lemma deleted_step:
  "DeletePgImp hash_int 0 (unpinned_example e) = Inr (True, deleted_example e)"
  by (cases e) (simp_all add: bpm_eval unpinned_example_def deleted_example_def)

theorem DeletePgImp_keeps_page_id_witness:
  "bpm_run hash_int key_order [CallNewPage, CallUnpinPage 0 False] (example_pool True 1) =
     Inr (unpinned_example True) \<and>
   bpm_run hash_int key_order [CallNewPage, CallUnpinPage 0 False] (example_pool False 1) =
     Inr (unpinned_example False) \<and>
   Find hash_int 0 (page_table (unpinned_example True)) = Some 0 \<and>
   Find hash_int 0 (page_table (unpinned_example False)) = Some 0 \<and>
   DeletePgImp hash_int 0 (unpinned_example True) = Inr (True, deleted_example True) \<and>
   DeletePgImp hash_int 0 (unpinned_example False) = Inr (True, deleted_example False) \<and>
   page_id (pages (deleted_example True) ! 0) = 0 \<and>
   page_id (pages (deleted_example False) ! 0) = 0 \<and>
   Find hash_int 0 (page_table (deleted_example True)) = None \<and>
   Find hash_int 0 (page_table (deleted_example False)) = None"
proof -
  have h: "Find hash_int 0 (page_table (unpinned_example e)) = Some 0"
    "0 < length (pages (unpinned_example e))"
    "page_id (pages (unpinned_example e) ! 0) = 0"
    "pin_count (pages (unpinned_example e) ! 0) = 0"
    "dir (page_table (unpinned_example e)) ! IndexOf hash_int (page_table (unpinned_example e)) 0
       < length (heap (page_table (unpinned_example e)))"
    "distinct (map fst (items (heap (page_table (unpinned_example e)) !
       (dir (page_table (unpinned_example e)) !
          IndexOf hash_int (page_table (unpinned_example e)) 0))))" for e
    by (simp_all add: unpinned_example_def Find_def Bucket_Find_def IndexOf_def)
  note t = DeletePgImp_keeps_page_id [OF h deleted_step]
  from t [of True] t [of False] h(1) show ?thesis
    by (intro conjI unpinned_run deleted_step) simp_all
qed

text \<open>
  A consequence: the identifier left in a frame of the free list is removed from the page
  table when the frame is taken again, also when the page has become resident in another
  frame in between. Here page 0 ends pinned in frame 1 with no entry in the page table, so
  that \<open>UnpinPage(0)\<close> returns false.
\<close>

lemma lost_entry_run:
  "bpm_run hash_int key_order
     [CallNewPage, CallUnpinPage 0 False, CallDeletePage 0, CallFetchPage 0, CallNewPage]
     (example_pool True 2) = Inr lost_entry_example \<and>
   page_id (pages lost_entry_example ! 1) = 0 \<and>
   pin_count (pages lost_entry_example ! 1) = 1 \<and>
   free_list lost_entry_example = [] \<and>
   Find hash_int 0 (page_table lost_entry_example) = None \<and>
   UnpinPgImp hash_int 0 False lost_entry_example = Inr (False, lost_entry_example)"
  by (simp add: bpm_eval upt_0_2 replicate_2 example_disk_def lost_entry_example_def)

end
